theory Spec2Isabelle
  imports Main "HOL-Library.Sublist" "HOL-Library.Multiset" "HOL-Library.AList"
    "HOL-Library.Code_Target_Numeral"
begin

section \<open>Strings\<close>

text \<open>
  A JavaScript string is a sequence of UTF-16 code units. A code unit is modelled as a
  natural number (below 65536 for every string the platform can produce), a string as the
  list of its code units. \<open>str\<close> turns an ASCII literal into such a string.
\<close>

type_synonym jsstring = "nat list"

definition str :: "string \<Rightarrow> jsstring" where
  "str s = map of_char s"

text \<open>
  \<open>String.prototype.trim\<close> removes the WhiteSpace and LineTerminator code units of
  ECMAScript from both ends of the string.
\<close>

definition is_white_space :: "nat \<Rightarrow> bool" where
  "is_white_space c \<longleftrightarrow>
     c \<in> {0x9, 0xA, 0xB, 0xC, 0xD, 0x20, 0xA0, 0x1680, 0x2028, 0x2029, 0x202F, 0x205F,
          0x3000, 0xFEFF}
     \<or> (0x2000 \<le> c \<and> c \<le> 0x200A)"

definition trim :: "jsstring \<Rightarrow> jsstring" where
  "trim s = rev (dropWhile is_white_space (rev (dropWhile is_white_space s)))"

section \<open>Data model\<close>

text \<open>
  A JavaScript number that occurs in this program: an integer \<open>Integer n\<close>, a decimal
  fraction \<open>Fraction m k\<close> (the value \<open>m / 10 ^ k\<close>, with \<open>0 < k\<close> and \<open>m\<close> not
  divisible by ten), or one of the three values that are not finite. Numbers are kept
  exact: the rounding of a literal to the nearest binary64 value is not modelled, so the
  model agrees with the platform on the values that binary64 represents exactly, which
  include every integer between \<open>- (2 ^ 53 - 1)\<close> and \<open>2 ^ 53 - 1\<close>. Negative zero is
  identified with zero, as \<open>===\<close> does.
\<close>

datatype number = Integer int | Fraction int nat | NaN | PosInfinity | NegInfinity

text \<open>
  \<^verbatim>\<open>type Todo = { id: string; text: string; completed: boolean; createdAt: number }\<close>
  The fields \<open>id\<close> and \<open>text\<close> carry a prime, since both names are taken in
  Isabelle.
\<close>

record Todo =
  id' :: jsstring
  text' :: jsstring
  completed :: bool
  createdAt :: number

text \<open>The filter mode, \<^verbatim>\<open>"all" | "active" | "completed"\<close>.\<close>

datatype filter_mode = F_all | F_active | F_completed

text \<open>
  The state of the component \<open>Home\<close>: one field for each \<open>useState\<close> cell. The cell
  \<open>text\<close> of the source (the content of the input box) is the field \<open>input_text\<close>; the
  cell \<open>filter\<close> is \<open>filter'\<close>; \<open>editingId\<close> is \<open>None\<close> for \<open>null\<close>.
\<close>

record Home =
  todos :: "Todo list"
  input_text :: jsstring
  filter' :: filter_mode
  editingId :: "jsstring option"
  editingText :: jsstring

section \<open>The task store\<close>

text \<open>
  Each handler of the source updates the state cells through their setters; the model
  takes the state and returns the updated one. \<open>addTodo\<close> reads two values from the
  platform, \<open>uuidv4()\<close> and \<open>Date.now()\<close>; they are its first two arguments.
\<close>

definition setText :: "jsstring \<Rightarrow> Home \<Rightarrow> Home" where
  "setText s st = st\<lparr>input_text := s\<rparr>"

definition setFilter :: "filter_mode \<Rightarrow> Home \<Rightarrow> Home" where
  "setFilter f st = st\<lparr>filter' := f\<rparr>"

definition addTodo :: "jsstring \<Rightarrow> number \<Rightarrow> Home \<Rightarrow> Home" where
  "addTodo uuid now st =
     (let trimmed = trim (input_text st) in
      if trimmed = [] then st
      else
        let newTodo = \<lparr>id' = uuid, text' = trimmed, completed = False, createdAt = now\<rparr>
        in st\<lparr>todos := newTodo # todos st, input_text := []\<rparr>)"

definition toggleTodo :: "jsstring \<Rightarrow> Home \<Rightarrow> Home" where
  "toggleTodo i st =
     st\<lparr>todos := map (\<lambda>t. if id' t = i then t\<lparr>completed := \<not> completed t\<rparr> else t) (todos st)\<rparr>"

definition removeTodo :: "jsstring \<Rightarrow> Home \<Rightarrow> Home" where
  "removeTodo i st = st\<lparr>todos := filter (\<lambda>t. id' t \<noteq> i) (todos st)\<rparr>"

definition startEdit :: "Todo \<Rightarrow> Home \<Rightarrow> Home" where
  "startEdit todo st = st\<lparr>editingId := Some (id' todo), editingText := text' todo\<rparr>"

definition cancelEdit :: "Home \<Rightarrow> Home" where
  "cancelEdit st = st\<lparr>editingId := None, editingText := []\<rparr>"

definition saveEdit :: "jsstring \<Rightarrow> Home \<Rightarrow> Home" where
  "saveEdit i st =
     (let trimmed = trim (editingText st) in
      if trimmed = [] then cancelEdit (removeTodo i st)
      else
        cancelEdit
          (st\<lparr>todos := map (\<lambda>t. if id' t = i then t\<lparr>text' := trimmed\<rparr> else t) (todos st)\<rparr>))"

definition clearCompleted :: "Home \<Rightarrow> Home" where
  "clearCompleted st = st\<lparr>todos := filter (\<lambda>t. \<not> completed t) (todos st)\<rparr>"

definition visible :: "Home \<Rightarrow> Todo list" where
  "visible st =
     filter (\<lambda>t. if filter' st = F_all then True
                 else if filter' st = F_active then \<not> completed t
                 else completed t)
       (todos st)"

section \<open>The platform: JSON\<close>

text \<open>
  The source calls \<open>JSON.stringify\<close>, \<open>JSON.parse\<close>, \<open>localStorage\<close> and
  \<open>console.warn\<close>. They belong to the platform, not to the repository; this section and
  the next one model them after ECMAScript and the Web Storage interface.

  A value that \<open>JSON.parse\<close> can return, or that \<open>saveTodos\<close> can be given: \<open>null\<close>, a
  boolean, a number, a string, an array, or an object. An object is the list of its
  properties in the order of their creation, every key once. (The platform lists keys
  that are array indices before the others; no object of this program has such a key.)
\<close>

datatype jsval =
    JNull
  | JBool bool
  | JNum number
  | JStr jsstring
  | JArr "jsval list"
  | JObj "(jsstring \<times> jsval) list"

text \<open>
  The exceptions of the platform that this program can meet. \<open>RangeError\<close> is what a
  parser throws when its recursion budget is used up.
\<close>

datatype js_error = SyntaxError | RangeError | SecurityError | QuotaExceededError

subsection \<open>Numbers as strings\<close>

text \<open>The decimal digits of a natural number, most significant first; \<open>48\<close> is \<open>0\<close>.\<close>

fun digits :: "nat \<Rightarrow> jsstring" where
  "digits n = (if n < 10 then [48 + n] else digits (n div 10) @ [48 + n mod 10])"

declare digits.simps [simp del]

text \<open>
  \<open>Number::toString\<close> in radix ten. With \<open>s\<close> the significant digits of the number and \<open>n\<close>
  the position of its decimal point, the number is written without an exponent when
  \<open>- 6 < n \<le> 21\<close>, and as \<open>d.ddde\<plusminus>x\<close> otherwise.
\<close>

definition exponent_form :: "jsstring \<Rightarrow> int \<Rightarrow> jsstring" where
  "exponent_form s e =
     (case s of
        [] \<Rightarrow> []
      | d # ds \<Rightarrow>
          (if ds = [] then [d] else d # 46 # ds)
          @ [101] @ (if e < 0 then [45] else [43]) @ digits (nat \<bar>e\<bar>))"

definition integer_form :: "nat \<Rightarrow> jsstring" where
  "integer_form n =
     (let s = digits n in
      if length s \<le> 21 then s
      else exponent_form (rev (dropWhile (\<lambda>c. c = 48) (rev s))) (int (length s) - 1))"

definition fraction_form :: "nat \<Rightarrow> nat \<Rightarrow> jsstring" where
  "fraction_form m k =
     (let s = digits m; n = int (length s) - int k in
      if 0 < n \<and> n \<le> 21 then take (nat n) s @ [46] @ drop (nat n) s
      else if - 6 < n \<and> n \<le> 0 then [48, 46] @ replicate (nat (- n)) 48 @ s
      else exponent_form s (n - 1))"

fun number_to_string :: "number \<Rightarrow> jsstring" where
  "number_to_string (Integer n) =
     (if n < 0 then 45 # integer_form (nat (- n)) else integer_form (nat n))"
| "number_to_string (Fraction m k) =
     (if m < 0 then 45 # fraction_form (nat (- m)) k else fraction_form (nat m) k)"
| "number_to_string NaN = str ''NaN''"
| "number_to_string PosInfinity = str ''Infinity''"
| "number_to_string NegInfinity = str ''-Infinity''"

fun is_finite :: "number \<Rightarrow> bool" where
  "is_finite (Integer n) = True"
| "is_finite (Fraction m k) = True"
| "is_finite NaN = False"
| "is_finite PosInfinity = False"
| "is_finite NegInfinity = False"

subsection \<open>\<open>JSON.stringify\<close>\<close>

text \<open>
  \<open>QuoteJSONString\<close>: the quotation mark, the backslash and the control characters are
  escaped, a surrogate that is not part of a pair is written as \<open>\uXXXX\<close>, every other
  code unit stands for itself.
\<close>

definition hex_digit :: "nat \<Rightarrow> nat" where
  "hex_digit d = (if d < 10 then 48 + d else 87 + d)"

definition unicode_escape :: "nat \<Rightarrow> jsstring" where
  "unicode_escape c =
     [92, 117, hex_digit (c div 4096 mod 16), hex_digit (c div 256 mod 16),
      hex_digit (c div 16 mod 16), hex_digit (c mod 16)]"

definition is_high_surrogate :: "nat \<Rightarrow> bool" where
  "is_high_surrogate c \<longleftrightarrow> 0xD800 \<le> c \<and> c \<le> 0xDBFF"

definition is_low_surrogate :: "nat \<Rightarrow> bool" where
  "is_low_surrogate c \<longleftrightarrow> 0xDC00 \<le> c \<and> c \<le> 0xDFFF"

fun quote_chars :: "jsstring \<Rightarrow> jsstring" where
  "quote_chars [] = []"
| "quote_chars (c # s) =
     (if c = 0x08 then 92 # 98 # quote_chars s
      else if c = 0x09 then 92 # 116 # quote_chars s
      else if c = 0x0A then 92 # 110 # quote_chars s
      else if c = 0x0C then 92 # 102 # quote_chars s
      else if c = 0x0D then 92 # 114 # quote_chars s
      else if c = 0x22 then 92 # 34 # quote_chars s
      else if c = 0x5C then 92 # 92 # quote_chars s
      else if c < 0x20 then unicode_escape c @ quote_chars s
      else if is_high_surrogate c then
        (case s of
           [] \<Rightarrow> unicode_escape c
         | d # s' \<Rightarrow>
             if is_low_surrogate d then c # d # quote_chars s'
             else unicode_escape c @ quote_chars s)
      else if is_low_surrogate c then unicode_escape c @ quote_chars s
      else c # quote_chars s)"

definition QuoteJSONString :: "jsstring \<Rightarrow> jsstring" where
  "QuoteJSONString s = 34 # quote_chars s @ [34]"

fun join_comma :: "jsstring list \<Rightarrow> jsstring" where
  "join_comma [] = []"
| "join_comma [x] = x"
| "join_comma (x # y # ys) = x @ 44 # join_comma (y # ys)"

text \<open>
  \<open>JSON.stringify\<close> with one argument: no indentation. A number that is not finite is
  written as \<open>null\<close>.
\<close>

fun JSON_stringify :: "jsval \<Rightarrow> jsstring" where
  "JSON_stringify JNull = str ''null''"
| "JSON_stringify (JBool b) = (if b then str ''true'' else str ''false'')"
| "JSON_stringify (JNum x) = (if is_finite x then number_to_string x else str ''null'')"
| "JSON_stringify (JStr s) = QuoteJSONString s"
| "JSON_stringify (JArr vs) = 91 # join_comma (map JSON_stringify vs) @ [93]"
| "JSON_stringify (JObj ms) =
     123 # join_comma (map (\<lambda>m. QuoteJSONString (fst m) @ 58 # JSON_stringify (snd m)) ms) @ [125]"

subsection \<open>\<open>JSON.parse\<close>\<close>

text \<open>
  A recursive-descent parser for the JSON grammar. A parser takes the text that is left
  and returns either the exception it throws or the value it has read together with the
  text after it.
\<close>

definition is_json_ws :: "nat \<Rightarrow> bool" where
  "is_json_ws c \<longleftrightarrow> c = 0x20 \<or> c = 0x09 \<or> c = 0x0A \<or> c = 0x0D"

definition skip_ws :: "jsstring \<Rightarrow> jsstring" where
  "skip_ws s = dropWhile is_json_ws s"

definition is_digit :: "nat \<Rightarrow> bool" where
  "is_digit c \<longleftrightarrow> 48 \<le> c \<and> c \<le> 57"

definition hex_value :: "nat \<Rightarrow> nat option" where
  "hex_value c =
     (if 48 \<le> c \<and> c \<le> 57 then Some (c - 48)
      else if 97 \<le> c \<and> c \<le> 102 then Some (c - 87)
      else if 65 \<le> c \<and> c \<le> 70 then Some (c - 55)
      else None)"

definition unescape :: "nat \<Rightarrow> nat option" where
  "unescape e =
     (if e = 34 then Some 0x22
      else if e = 92 then Some 0x5C
      else if e = 47 then Some 0x2F
      else if e = 98 then Some 0x08
      else if e = 102 then Some 0x0C
      else if e = 110 then Some 0x0A
      else if e = 114 then Some 0x0D
      else if e = 116 then Some 0x09
      else None)"

definition cons_char ::
  "nat \<Rightarrow> js_error + (jsstring \<times> jsstring) \<Rightarrow> js_error + (jsstring \<times> jsstring)" where
  "cons_char c r = (case r of Inl e \<Rightarrow> Inl e | Inr (t, rest) \<Rightarrow> Inr (c # t, rest))"

text \<open>The characters of a string literal, after its opening quotation mark.\<close>

fun parse_string_chars :: "jsstring \<Rightarrow> js_error + (jsstring \<times> jsstring)" where
  "parse_string_chars [] = Inl SyntaxError"
| "parse_string_chars (c # s) =
     (if c = 34 then Inr ([], s)
      else if c = 92 then
        (case s of
           [] \<Rightarrow> Inl SyntaxError
         | e # s1 \<Rightarrow>
             if e = 117 then
               (case s1 of
                  h1 # h2 # h3 # h4 # s2 \<Rightarrow>
                    (case (hex_value h1, hex_value h2, hex_value h3, hex_value h4) of
                       (Some a, Some b, Some c', Some d) \<Rightarrow>
                         cons_char (4096 * a + 256 * b + 16 * c' + d) (parse_string_chars s2)
                     | _ \<Rightarrow> Inl SyntaxError)
                | _ \<Rightarrow> Inl SyntaxError)
             else
               (case unescape e of
                  Some u \<Rightarrow> cons_char u (parse_string_chars s1)
                | None \<Rightarrow> Inl SyntaxError))
      else if c < 32 then Inl SyntaxError
      else cons_char c (parse_string_chars s))"

text \<open>
  A number literal: an optional minus sign, an integer part without a leading zero, an
  optional fraction, an optional exponent. Its value is \<open>m * 10 ^ e\<close> for the digits \<open>m\<close>
  of the integer part and the fraction; \<open>make_number\<close> brings it into the form of the
  type \<open>number\<close>.
\<close>

definition nat_of_digits :: "jsstring \<Rightarrow> nat" where
  "nat_of_digits ds = foldl (\<lambda>a c. 10 * a + (c - 48)) 0 ds"

fun normalise :: "nat \<Rightarrow> nat \<Rightarrow> nat \<times> nat" where
  "normalise m 0 = (m, 0)"
| "normalise m (Suc k) = (if m mod 10 = 0 then normalise (m div 10) k else (m, Suc k))"

definition make_number :: "bool \<Rightarrow> nat \<Rightarrow> int \<Rightarrow> number" where
  "make_number neg m e =
     (if 0 \<le> e then Integer (if neg then - int (m * 10 ^ nat e) else int (m * 10 ^ nat e))
      else
        (case normalise m (nat (- e)) of
           (m', k) \<Rightarrow>
             if k = 0 then Integer (if neg then - int m' else int m')
             else Fraction (if neg then - int m' else int m') k))"

definition parse_sign :: "jsstring \<Rightarrow> bool \<times> jsstring" where
  "parse_sign s = (case s of [] \<Rightarrow> (False, s) | c # r \<Rightarrow> if c = 45 then (True, r) else (False, s))"

definition parse_int_part :: "jsstring \<Rightarrow> jsstring \<times> jsstring" where
  "parse_int_part s =
     (case s of
        [] \<Rightarrow> ([], s)
      | c # r \<Rightarrow> if c = 48 then ([48], r) else (takeWhile is_digit s, dropWhile is_digit s))"

definition parse_frac :: "jsstring \<Rightarrow> js_error + (jsstring \<times> jsstring)" where
  "parse_frac s =
     (case s of
        [] \<Rightarrow> Inr ([], s)
      | c # r \<Rightarrow>
          if c = 46 then
            (if takeWhile is_digit r = [] then Inl SyntaxError
             else Inr (takeWhile is_digit r, dropWhile is_digit r))
          else Inr ([], s))"

definition parse_exp :: "jsstring \<Rightarrow> js_error + (int \<times> jsstring)" where
  "parse_exp s =
     (case s of
        [] \<Rightarrow> Inr (0, s)
      | c # r \<Rightarrow>
          if c = 101 \<or> c = 69 then
            (case (case r of
                     [] \<Rightarrow> (False, r)
                   | d # r' \<Rightarrow>
                       if d = 45 then (True, r') else if d = 43 then (False, r') else (False, r)) of
               (neg, r1) \<Rightarrow>
                 if takeWhile is_digit r1 = [] then Inl SyntaxError
                 else Inr (if neg then - int (nat_of_digits (takeWhile is_digit r1))
                           else int (nat_of_digits (takeWhile is_digit r1)),
                           dropWhile is_digit r1))
          else Inr (0, s))"

definition parse_number :: "jsstring \<Rightarrow> js_error + (number \<times> jsstring)" where
  "parse_number s =
     (case parse_sign s of
        (neg, s1) \<Rightarrow>
          (case parse_int_part s1 of
             (ip, s2) \<Rightarrow>
               if ip = [] then Inl SyntaxError
               else
                 (case parse_frac s2 of
                    Inl e \<Rightarrow> Inl e
                  | Inr (fp, s3) \<Rightarrow>
                      (case parse_exp s3 of
                         Inl e \<Rightarrow> Inl e
                       | Inr (x, s4) \<Rightarrow>
                           Inr (make_number neg (nat_of_digits (ip @ fp)) (x - int (length fp)),
                                s4)))))"

definition parse_literal :: "jsstring \<Rightarrow> jsval \<Rightarrow> jsstring \<Rightarrow> js_error + (jsval \<times> jsstring)" where
  "parse_literal w v s =
     (if take (length w) s = w then Inr (v, drop (length w) s) else Inl SyntaxError)"

text \<open>
  The object that a list of members denotes: a key that comes again replaces the value
  that the key had.
\<close>

definition object_of :: "(jsstring \<times> jsval) list \<Rightarrow> (jsstring \<times> jsval) list" where
  "object_of ms = foldl (\<lambda>obj m. AList.update (fst m) (snd m) obj) [] ms"

text \<open>
  Values, the elements of an array after its opening bracket, and the members of an
  object after its opening brace. The first argument is the recursion budget: each call
  passes one less to the calls it makes, and a call without budget throws \<open>RangeError\<close>.
  \<open>JSON_parse\<close> starts with a budget of twice the length of the text plus one, which is
  never used up (lemma \<open>JSON_parse_budget\<close>): the model has no limit on the nesting
  of a text. An engine that has one throws where the model returns the value, and
  \<open>loadTodos\<close> catches what \<open>JSON.parse\<close> throws.
\<close>

fun parse_value :: "nat \<Rightarrow> jsstring \<Rightarrow> js_error + (jsval \<times> jsstring)"
  and parse_elements :: "nat \<Rightarrow> jsstring \<Rightarrow> js_error + (jsval list \<times> jsstring)"
  and parse_members :: "nat \<Rightarrow> jsstring \<Rightarrow> js_error + ((jsstring \<times> jsval) list \<times> jsstring)"
where
  "parse_value 0 s = Inl RangeError"
| "parse_value (Suc n) s =
     (case s of
        [] \<Rightarrow> Inl SyntaxError
      | c # r \<Rightarrow>
          if c = 123 then
            (case skip_ws r of
               [] \<Rightarrow> Inl SyntaxError
             | d # r' \<Rightarrow>
                 if d = 125 then Inr (JObj [], r')
                 else
                   (case parse_members n (d # r') of
                      Inl e \<Rightarrow> Inl e
                    | Inr (ms, r'') \<Rightarrow> Inr (JObj (object_of ms), r'')))
          else if c = 91 then
            (case skip_ws r of
               [] \<Rightarrow> Inl SyntaxError
             | d # r' \<Rightarrow>
                 if d = 93 then Inr (JArr [], r')
                 else
                   (case parse_elements n (d # r') of
                      Inl e \<Rightarrow> Inl e
                    | Inr (vs, r'') \<Rightarrow> Inr (JArr vs, r'')))
          else if c = 34 then
            (case parse_string_chars r of
               Inl e \<Rightarrow> Inl e
             | Inr (t, r') \<Rightarrow> Inr (JStr t, r'))
          else if c = 116 then parse_literal (str ''true'') (JBool True) s
          else if c = 102 then parse_literal (str ''false'') (JBool False) s
          else if c = 110 then parse_literal (str ''null'') JNull s
          else if c = 45 \<or> is_digit c then
            (case parse_number s of
               Inl e \<Rightarrow> Inl e
             | Inr (x, r') \<Rightarrow> Inr (JNum x, r'))
          else Inl SyntaxError)"
| "parse_elements 0 s = Inl RangeError"
| "parse_elements (Suc n) s =
     (case parse_value n (skip_ws s) of
        Inl e \<Rightarrow> Inl e
      | Inr (v, r) \<Rightarrow>
          (case skip_ws r of
             [] \<Rightarrow> Inl SyntaxError
           | d # r' \<Rightarrow>
               if d = 44 then
                 (case parse_elements n r' of
                    Inl e \<Rightarrow> Inl e
                  | Inr (vs, r'') \<Rightarrow> Inr (v # vs, r''))
               else if d = 93 then Inr ([v], r')
               else Inl SyntaxError))"
| "parse_members 0 s = Inl RangeError"
| "parse_members (Suc n) s =
     (case skip_ws s of
        [] \<Rightarrow> Inl SyntaxError
      | q # r \<Rightarrow>
          if q \<noteq> 34 then Inl SyntaxError
          else
            (case parse_string_chars r of
               Inl e \<Rightarrow> Inl e
             | Inr (k, r1) \<Rightarrow>
                 (case skip_ws r1 of
                    [] \<Rightarrow> Inl SyntaxError
                  | col # r2 \<Rightarrow>
                      if col \<noteq> 58 then Inl SyntaxError
                      else
                        (case parse_value n (skip_ws r2) of
                           Inl e \<Rightarrow> Inl e
                         | Inr (v, r3) \<Rightarrow>
                             (case skip_ws r3 of
                                [] \<Rightarrow> Inl SyntaxError
                              | d # r4 \<Rightarrow>
                                  if d = 44 then
                                    (case parse_members n r4 of
                                       Inl e \<Rightarrow> Inl e
                                     | Inr (ms, r5) \<Rightarrow> Inr ((k, v) # ms, r5))
                                  else if d = 125 then Inr ([(k, v)], r4)
                                  else Inl SyntaxError)))))"

definition JSON_parse :: "jsstring \<Rightarrow> js_error + jsval" where
  "JSON_parse s =
     (case parse_value (2 * length s + 1) (skip_ws s) of
        Inl e \<Rightarrow> Inl e
      | Inr (v, r) \<Rightarrow> if skip_ws r = [] then Inr v else Inl SyntaxError)"

section \<open>The platform: storage and console\<close>

text \<open>
  The part of the browser that the program touches: the storage area of the page and the
  console. Access to the storage throws \<open>SecurityError\<close> when the user agent denies it;
  \<open>setItem\<close> throws \<open>QuotaExceededError\<close> when the items would take more room than the
  quota, counted in code units of keys and values. The console keeps the warnings in the
  order they were given.
\<close>

record browser =
  storage_denied :: bool
  storage_quota :: nat
  storage_items :: "(jsstring \<times> jsstring) list"
  console :: "(jsstring \<times> js_error) list"

definition storage_usage :: "(jsstring \<times> jsstring) list \<Rightarrow> nat" where
  "storage_usage al = sum_list (map (\<lambda>kv. length (fst kv) + length (snd kv)) al)"

definition getItem :: "jsstring \<Rightarrow> browser \<Rightarrow> js_error + jsstring option" where
  "getItem k b = (if storage_denied b then Inl SecurityError else Inr (map_of (storage_items b) k))"

definition setItem :: "jsstring \<Rightarrow> jsstring \<Rightarrow> browser \<Rightarrow> js_error + browser" where
  "setItem k v b =
     (if storage_denied b then Inl SecurityError
      else if storage_quota b < storage_usage (AList.update k v (storage_items b))
      then Inl QuotaExceededError
      else Inr (b\<lparr>storage_items := AList.update k v (storage_items b)\<rparr>))"

definition console_warn :: "jsstring \<Rightarrow> js_error \<Rightarrow> browser \<Rightarrow> browser" where
  "console_warn msg e b = b\<lparr>console := console b @ [(msg, e)]\<rparr>"

text \<open>\<^verbatim>\<open>try { body } catch (e) { handler }\<close>: the handler runs on what the body throws.\<close>

definition try_catch :: "js_error + 'a \<Rightarrow> (js_error \<Rightarrow> js_error + 'a) \<Rightarrow> js_error + 'a" where
  "try_catch body handler = (case body of Inl e \<Rightarrow> handler e | Inr x \<Rightarrow> Inr x)"

section \<open>The persistence adapter\<close>

definition STORAGE_KEY :: jsstring where
  "STORAGE_KEY = str ''todos:v1''"

text \<open>
  A \<open>Todo\<close> as a value of the language: the object with its four properties, in the
  order in which \<open>addTodo\<close> writes them. A collection is the array of its tasks.
\<close>

definition todo_val :: "Todo \<Rightarrow> jsval" where
  "todo_val t =
     JObj [(str ''id'', JStr (id' t)), (str ''text'', JStr (text' t)),
           (str ''completed'', JBool (completed t)), (str ''createdAt'', JNum (createdAt t))]"

definition todos_val :: "Todo list \<Rightarrow> jsval" where
  "todos_val ts = JArr (map todo_val ts)"

text \<open>
  \<^verbatim>\<open>
  function loadTodos(): Todo[] {
    try {
      const raw = localStorage.getItem(STORAGE_KEY);
      if (!raw) return [];
      return JSON.parse(raw) as Todo[];
    } catch (e) {
      console.warn("Failed to load todos", e);
      return [];
    }
  }
  \<close>
  The result is \<open>Inl\<close> for an exception that reaches the caller, and \<open>Inr\<close> for the value
  returned together with the browser after the call. \<open>!raw\<close> holds for \<open>null\<close> and for the
  empty string. The cast \<open>as Todo[]\<close> checks nothing at run time, so the value returned is
  whatever \<open>JSON.parse\<close> gave.
\<close>

definition loadTodos :: "browser \<Rightarrow> js_error + (jsval \<times> browser)" where
  "loadTodos b =
     try_catch
       (case getItem STORAGE_KEY b of
          Inl e \<Rightarrow> Inl e
        | Inr raw \<Rightarrow>
            (case raw of
               None \<Rightarrow> Inr (JArr [], b)
             | Some s \<Rightarrow>
                 if s = [] then Inr (JArr [], b)
                 else (case JSON_parse s of Inl e \<Rightarrow> Inl e | Inr v \<Rightarrow> Inr (v, b))))
       (\<lambda>e. Inr (JArr [], console_warn (str ''Failed to load todos'') e b))"

text \<open>
  \<^verbatim>\<open>
  function saveTodos(todos: Todo[]) {
    try {
      localStorage.setItem(STORAGE_KEY, JSON.stringify(todos));
    } catch (e) {
      console.warn("Failed to save todos", e);
    }
  }
  \<close>
\<close>

definition saveTodos :: "Todo list \<Rightarrow> browser \<Rightarrow> js_error + browser" where
  "saveTodos ts b =
     try_catch
       (setItem STORAGE_KEY (JSON_stringify (todos_val ts)) b)
       (\<lambda>e. Inr (console_warn (str ''Failed to save todos'') e b))"

section \<open>Notions used in the statements\<close>

text \<open>
  \<open>Number.isSafeInteger\<close>: the integers that binary64 represents exactly along with
  their neighbours. \<open>Date.now()\<close> returns such a number.
\<close>

fun isSafeInteger :: "number \<Rightarrow> bool" where
  "isSafeInteger (Integer n) = (\<bar>n\<bar> \<le> 9007199254740991)"
| "isSafeInteger x = False"

text \<open>
  A valid Task Collection in the words of the specification: an array of Task records,
  each with a string \<open>id\<close>, a string \<open>text\<close>, a boolean \<open>completed\<close> and a number
  \<open>createdAt\<close>.
\<close>

fun is_task :: "jsval \<Rightarrow> bool" where
  "is_task (JObj ms) =
     ((case map_of ms (str ''id'') of Some (JStr s) \<Rightarrow> True | _ \<Rightarrow> False)
      \<and> (case map_of ms (str ''text'') of Some (JStr s) \<Rightarrow> True | _ \<Rightarrow> False)
      \<and> (case map_of ms (str ''completed'') of Some (JBool c) \<Rightarrow> True | _ \<Rightarrow> False)
      \<and> (case map_of ms (str ''createdAt'') of Some (JNum x) \<Rightarrow> True | _ \<Rightarrow> False))"
| "is_task v = False"

fun is_task_collection :: "jsval \<Rightarrow> bool" where
  "is_task_collection (JArr vs) = list_all is_task vs"
| "is_task_collection v = False"

text \<open>
  The values on which printing and parsing are shown to be inverse: every number is an
  integer of at most 21 digits, which \<open>Number::toString\<close> writes without an exponent, and
  no object has a key twice.
\<close>

fun plain :: "jsval \<Rightarrow> bool" where
  "plain JNull = True"
| "plain (JBool b) = True"
| "plain (JNum x) = (case x of Integer n \<Rightarrow> \<bar>n\<bar> < 10 ^ 21 | _ \<Rightarrow> False)"
| "plain (JStr s) = True"
| "plain (JArr vs) = list_all plain vs"
| "plain (JObj ms) = (distinct (map fst ms) \<and> list_all (\<lambda>m. plain (snd m)) ms)"

text \<open>The recursion budget that parsing the text of a value takes.\<close>

fun elems_cost :: "nat list \<Rightarrow> nat" where
  "elems_cost [] = 0"
| "elems_cost (c # cs) = Suc (max c (elems_cost cs))"

fun cost :: "jsval \<Rightarrow> nat" where
  "cost (JArr vs) = Suc (elems_cost (map cost vs))"
| "cost (JObj ms) = Suc (elems_cost (map (\<lambda>m. cost (snd m)) ms))"
| "cost v = 1"

text \<open>
  A text may follow a number literal when it does not continue it; a value starts with
  one of few characters; a member of an object is printed as its key, a colon and its
  value.
\<close>

definition follow_ok :: "jsstring \<Rightarrow> bool" where
  "follow_ok r =
     (case r of [] \<Rightarrow> True | c # _ \<Rightarrow> \<not> is_digit c \<and> c \<noteq> 46 \<and> c \<noteq> 101 \<and> c \<noteq> 69)"

definition value_start :: "nat \<Rightarrow> bool" where
  "value_start c \<longleftrightarrow>
     c = 123 \<or> c = 91 \<or> c = 34 \<or> c = 116 \<or> c = 102 \<or> c = 110 \<or> c = 45 \<or> is_digit c"

definition member_string :: "jsstring \<times> jsval \<Rightarrow> jsstring" where
  "member_string m = QuoteJSONString (fst m) @ 58 # JSON_stringify (snd m)"

section \<open>States for the examples\<close>

text \<open>
  A browser with an empty storage area of five megabytes, and the same browser with one
  string stored under the key of the program.
\<close>

definition fresh_browser :: browser where
  "fresh_browser = \<lparr>storage_denied = False, storage_quota = 5242880, storage_items = [], console = []\<rparr>"

definition browser_with :: "jsstring \<Rightarrow> browser" where
  "browser_with raw = fresh_browser\<lparr>storage_items := [(STORAGE_KEY, raw)]\<rparr>"

section \<open>Properties of the platform model\<close>

subsection \<open>Digits and number literals\<close>

text \<open>
  The digits of a number are digits, they have no leading zero, and reading them gives
  the number back; so the number parser reads what \<open>Number::toString\<close> writes for an
  integer of at most 21 digits, when the text that follows does not continue the literal.
\<close>

lemma digits_nonempty: "digits n \<noteq> []"
  by (subst digits.simps) simp

lemma digits_all_digit: "c \<in> set (digits n) \<Longrightarrow> is_digit c"
proof (induction n arbitrary: c rule: digits.induct)
  case (1 n)
  show ?case
  proof (cases "n < 10")
    case True
    with "1.prems" show ?thesis
      by (subst (asm) digits.simps) (simp add: is_digit_def)
  next
    case False
    from "1.prems" False have "c \<in> set (digits (n div 10)) \<or> c = 48 + n mod 10"
      by (subst (asm) digits.simps) auto
    then show ?thesis
    proof
      assume "c \<in> set (digits (n div 10))"
      with "1.IH" False show ?thesis by simp
    next
      assume "c = 48 + n mod 10"
      moreover have "n mod 10 < 10" by simp
      ultimately show ?thesis unfolding is_digit_def by linarith
    qed
  qed
qed

lemma nat_of_digits_snoc: "nat_of_digits (ds @ [c]) = 10 * nat_of_digits ds + (c - 48)"
  by (simp add: nat_of_digits_def)

lemma nat_of_digits_digits: "nat_of_digits (digits n) = n"
proof (induction n rule: digits.induct)
  case (1 n)
  show ?case
  proof (cases "n < 10")
    case True
    then show ?thesis
      by (subst digits.simps) (simp add: nat_of_digits_def)
  next
    case False
    with "1.IH" have "nat_of_digits (digits (n div 10)) = n div 10" by simp
    with False show ?thesis
      by (subst digits.simps) (simp add: nat_of_digits_snoc)
  qed
qed

lemma hd_digits: "0 < n \<Longrightarrow> hd (digits n) \<noteq> 48"
proof (induction n rule: digits.induct)
  case (1 n)
  show ?case
  proof (cases "n < 10")
    case True
    with "1.prems" show ?thesis
      by (subst digits.simps) simp
  next
    case False
    then have "0 < n div 10" by simp
    with "1.IH" False have "hd (digits (n div 10)) \<noteq> 48" by simp
    with False show ?thesis
      by (subst digits.simps) (simp add: digits_nonempty)
  qed
qed

lemma length_digits: "n < 10 ^ Suc k \<Longrightarrow> length (digits n) \<le> Suc k"
proof (induction k arbitrary: n)
  case 0
  then show ?case by (subst digits.simps) simp
next
  case (Suc k)
  show ?case
  proof (cases "n < 10")
    case True
    then show ?thesis by (subst digits.simps) simp
  next
    case False
    from Suc.prems have "n div 10 < 10 ^ Suc k"
      by (simp add: less_mult_imp_div_less mult.commute)
    with Suc.IH have "length (digits (n div 10)) \<le> Suc k" by simp
    with False show ?thesis by (subst digits.simps) simp
  qed
qed

lemma abs_bound_neg: "\<bar>n\<bar> < 10 ^ 21 \<Longrightarrow> n < 0 \<Longrightarrow> nat (- n) < 10 ^ 21" for n :: int
  by (simp add: nat_less_iff)

lemma abs_bound_pos: "\<bar>n\<bar> < 10 ^ 21 \<Longrightarrow> \<not> n < 0 \<Longrightarrow> nat n < 10 ^ 21" for n :: int
  by (simp add: nat_less_iff)

lemma takeWhile_digits: "follow_ok r \<Longrightarrow> takeWhile is_digit (digits n @ r) = digits n"
  by (cases r) (simp_all add: follow_ok_def takeWhile_append2 digits_all_digit)

lemma dropWhile_digits: "follow_ok r \<Longrightarrow> dropWhile is_digit (digits n @ r) = r"
  by (cases r) (simp_all add: follow_ok_def dropWhile_append2 digits_all_digit)

lemma parse_int_part_digits:
  assumes "follow_ok r"
  shows "parse_int_part (digits n @ r) = (digits n, r)"
proof (cases "n = 0")
  case True
  have "digits 0 = [48]" by (subst digits.simps) simp
  with True show ?thesis by (simp add: parse_int_part_def)
next
  case False
  then have "hd (digits n) \<noteq> 48" by (simp add: hd_digits)
  moreover obtain d ds where "digits n = d # ds"
    using digits_nonempty [of n] by (cases "digits n") auto
  ultimately have "parse_int_part (digits n @ r)
      = (takeWhile is_digit (digits n @ r), dropWhile is_digit (digits n @ r))"
    by (simp add: parse_int_part_def)
  with assms show ?thesis by (simp add: takeWhile_digits dropWhile_digits)
qed

lemma parse_frac_follow: "follow_ok r \<Longrightarrow> parse_frac r = Inr ([], r)"
  by (cases r) (simp_all add: follow_ok_def parse_frac_def)

lemma parse_exp_follow: "follow_ok r \<Longrightarrow> parse_exp r = Inr (0, r)"
  by (cases r) (simp_all add: follow_ok_def parse_exp_def)

lemma hd_digits_is_digit: "is_digit (hd (digits n))"
  using digits_nonempty [of n] digits_all_digit [of "hd (digits n)" n] by simp

lemma parse_sign_digits: "parse_sign (digits n @ r) = (False, digits n @ r)"
proof -
  obtain d ds where eq: "digits n = d # ds"
    using digits_nonempty [of n] by (cases "digits n") auto
  with hd_digits_is_digit [of n] have "d \<noteq> 45" by (auto simp add: is_digit_def)
  with eq show ?thesis by (simp add: parse_sign_def)
qed

lemma parse_number_digits:
  assumes "follow_ok r"
  shows "parse_number (digits n @ r) = Inr (Integer (int n), r)"
  using assms
  by (simp add: parse_number_def parse_sign_digits parse_int_part_digits digits_nonempty
      parse_frac_follow parse_exp_follow nat_of_digits_digits make_number_def)

lemma parse_number_minus_digits:
  assumes "follow_ok r"
  shows "parse_number (45 # digits n @ r) = Inr (Integer (- int n), r)"
  using assms
  by (simp add: parse_number_def parse_sign_def parse_int_part_digits digits_nonempty
      parse_frac_follow parse_exp_follow nat_of_digits_digits make_number_def)

lemma integer_form_small: "n < 10 ^ 21 \<Longrightarrow> integer_form n = digits n"
  using length_digits [of n 20] by (simp add: integer_form_def)

lemma parse_number_to_string:
  assumes "\<bar>n\<bar> < 10 ^ 21" and "follow_ok r"
  shows "parse_number (number_to_string (Integer n) @ r) = Inr (Integer n, r)"
proof (cases "n < 0")
  case True
  with assms(1) have "nat (- n) < 10 ^ 21" by (rule abs_bound_neg)
  with True assms(2) show ?thesis
    by (simp add: integer_form_small parse_number_minus_digits)
next
  case False
  with assms(1) have "nat n < 10 ^ 21" by (rule abs_bound_pos)
  with False assms(2) show ?thesis
    by (simp add: integer_form_small parse_number_digits)
qed

subsection \<open>String literals\<close>

text \<open>
  The string parser reads what \<open>QuoteJSONString\<close> writes, for every string: by induction
  on the length of the string, with one case for each kind of code unit.
\<close>

lemma hex_value_hex_digit: "d < 16 \<Longrightarrow> hex_value (hex_digit d) = Some d"
  by (simp add: hex_value_def hex_digit_def)

lemma hex4:
  assumes "c < 65536"
  shows "4096 * (c div 4096 mod 16) + 256 * (c div 256 mod 16) + 16 * (c div 16 mod 16) + c mod 16 = (c::nat)"
proof -
  have a: "c mod 256 = 16 * (c div 16 mod 16) + c mod 16"
    using mod_mult2_eq [of c 16 16] by simp
  have b: "c mod 4096 = 256 * (c div 256 mod 16) + c mod 256"
    using mod_mult2_eq [of c 256 16] by simp
  have d: "c mod 65536 = 4096 * (c div 4096 mod 16) + c mod 4096"
    using mod_mult2_eq [of c 4096 16] by simp
  from assms have "c mod 65536 = c" by simp
  with a b d show ?thesis by linarith
qed

lemma parse_unicode_escape:
  assumes "c < 65536"
  shows "parse_string_chars (unicode_escape c @ s) = cons_char c (parse_string_chars s)"
proof -
  have "parse_string_chars (unicode_escape c @ s)
      = cons_char (4096 * (c div 4096 mod 16) + 256 * (c div 256 mod 16)
                   + 16 * (c div 16 mod 16) + c mod 16) (parse_string_chars s)"
    by (simp add: unicode_escape_def hex_value_hex_digit)
  then show ?thesis
    by (simp only: hex4 [OF assms])
qed

lemma parse_raw_char:
  assumes "32 \<le> c" and "c \<noteq> 34" and "c \<noteq> 92"
  shows "parse_string_chars (c # s) = cons_char c (parse_string_chars s)"
  using assms by simp

lemma cons_char_Inr: "cons_char c (Inr (t, r)) = Inr (c # t, r)"
  by (simp add: cons_char_def)

lemma parse_quote_chars: "parse_string_chars (quote_chars s @ 34 # r) = Inr (s, r)"
proof (induction "length s" arbitrary: s rule: less_induct)
  case less
  show ?case
  proof (cases s)
    case Nil
    then show ?thesis by simp
  next
    case (Cons c t)
    have IH: "parse_string_chars (quote_chars t @ 34 # r) = Inr (t, r)"
      using less [of t] Cons by simp
    consider (short) "c = 8 \<or> c = 9 \<or> c = 10 \<or> c = 12 \<or> c = 13 \<or> c = 34 \<or> c = 92"
      | (control) "c < 32" "c \<noteq> 8" "c \<noteq> 9" "c \<noteq> 10" "c \<noteq> 12" "c \<noteq> 13"
      | (high) "is_high_surrogate c"
      | (low) "is_low_surrogate c"
      | (plain) "32 \<le> c" "c \<noteq> 34" "c \<noteq> 92" "\<not> is_high_surrogate c" "\<not> is_low_surrogate c"
      by (cases "c < 32") (auto simp add: not_less)
    then show ?thesis
    proof cases
      case short
      then show ?thesis
        by (auto simp add: Cons IH unescape_def cons_char_def)
    next
      case control
      then have "quote_chars (c # t) = unicode_escape c @ quote_chars t"
        by simp
      moreover from control have "c < 65536" by simp
      ultimately show ?thesis
        by (simp add: Cons parse_unicode_escape IH cons_char_Inr del: quote_chars.simps)
    next
      case high
      then have c: "32 \<le> c" "c \<noteq> 34" "c \<noteq> 92" "c < 65536"
        by (simp_all add: is_high_surrogate_def)
      show ?thesis
      proof (cases t)
        case Nil
        with high c have "quote_chars (c # t) = unicode_escape c"
          by simp
        with c Nil Cons show ?thesis
          using parse_unicode_escape [of c "34 # r"]
          by (simp add: cons_char_Inr del: quote_chars.simps)
      next
        case inner: (Cons d t')
        show ?thesis
        proof (cases "is_low_surrogate d")
          case True
          with high c inner have q: "quote_chars (c # t) = c # d # quote_chars t'"
            by simp
          from True have d: "32 \<le> d" "d \<noteq> 34" "d \<noteq> 92"
            by (simp_all add: is_low_surrogate_def)
          have "parse_string_chars (quote_chars t' @ 34 # r) = Inr (t', r)"
            using less [of t'] Cons inner by simp
          with c d q Cons inner show ?thesis
            by (simp add: parse_raw_char cons_char_Inr
                del: quote_chars.simps parse_string_chars.simps)
        next
          case False
          with high c inner have "quote_chars (c # t) = unicode_escape c @ quote_chars t"
            by simp
          with c Cons show ?thesis
            by (simp add: parse_unicode_escape IH cons_char_Inr del: quote_chars.simps)
        qed
      qed
    next
      case low
      then have c: "32 \<le> c" "c \<noteq> 34" "c \<noteq> 92" "c < 65536" "\<not> is_high_surrogate c"
        by (simp_all add: is_low_surrogate_def is_high_surrogate_def)
      with low have "quote_chars (c # t) = unicode_escape c @ quote_chars t"
        by simp
      with c Cons show ?thesis
        by (simp add: parse_unicode_escape IH cons_char_Inr del: quote_chars.simps)
    next
      case plain
      then have "quote_chars (c # t) = c # quote_chars t"
        by simp
      with plain Cons show ?thesis
        by (simp add: parse_raw_char IH cons_char_Inr
            del: quote_chars.simps parse_string_chars.simps)
    qed
  qed
qed

subsection \<open>Parsing the text of a value gives the value\<close>

text \<open>
  The main lemma, \<open>parse_stringify\<close>, is by induction on the value, with an inner
  induction on the elements of an array and on the members of an object. The budget is
  any number that is at least the \<open>cost\<close> of the value, and the cost is at most the length
  of the text.
\<close>

lemma skip_ws_Cons: "\<not> is_json_ws c \<Longrightarrow> skip_ws (c # s) = c # s"
  by (simp add: skip_ws_def)

lemma value_start_not_ws: "value_start c \<Longrightarrow> \<not> is_json_ws c"
  by (auto simp add: value_start_def is_json_ws_def is_digit_def)

lemma stringify_start:
  assumes "plain v"
  shows "\<exists>c s. JSON_stringify v = c # s \<and> value_start c"
proof (cases v)
  case (JNum x)
  with assms obtain n where x: "x = Integer n" and n: "\<bar>n\<bar> < 10 ^ 21"
    by (cases x) simp_all
  obtain d ds where eq: "digits (nat n) = d # ds"
    using digits_nonempty [of "nat n"] by (cases "digits (nat n)") auto
  with hd_digits_is_digit [of "nat n"] have d: "is_digit d" by simp
  show ?thesis
  proof (cases "n < 0")
    case True
    with JNum x show ?thesis by (simp add: value_start_def)
  next
    case False
    with n have "nat n < 10 ^ 21" by (rule abs_bound_pos)
    with False JNum x eq d show ?thesis
      by (simp add: integer_form_small value_start_def)
  qed
qed (simp_all add: value_start_def str_def QuoteJSONString_def)

lemma follow_ok_simps [simp]:
  "follow_ok (44 # r)" "follow_ok (93 # r)" "follow_ok (125 # r)" "follow_ok []"
  by (simp_all add: follow_ok_def is_digit_def)

lemma parse_value_object:
  "parse_value (Suc n) (123 # r) =
     (case skip_ws r of
        [] \<Rightarrow> Inl SyntaxError
      | d # r' \<Rightarrow>
          if d = 125 then Inr (JObj [], r')
          else
            (case parse_members n (d # r') of
               Inl e \<Rightarrow> Inl e
             | Inr (ms, r'') \<Rightarrow> Inr (JObj (object_of ms), r'')))"
  by simp

lemma parse_value_array:
  "parse_value (Suc n) (91 # r) =
     (case skip_ws r of
        [] \<Rightarrow> Inl SyntaxError
      | d # r' \<Rightarrow>
          if d = 93 then Inr (JArr [], r')
          else
            (case parse_elements n (d # r') of
               Inl e \<Rightarrow> Inl e
             | Inr (vs, r'') \<Rightarrow> Inr (JArr vs, r'')))"
  by simp

lemma parse_value_string:
  "parse_value (Suc n) (34 # r) =
     (case parse_string_chars r of Inl e \<Rightarrow> Inl e | Inr (t, r') \<Rightarrow> Inr (JStr t, r'))"
  by simp

lemma parse_value_true:
  "parse_value (Suc n) (str ''true'' @ r) = Inr (JBool True, r)"
  by (simp add: str_def parse_literal_def)

lemma parse_value_false:
  "parse_value (Suc n) (str ''false'' @ r) = Inr (JBool False, r)"
  by (simp add: str_def parse_literal_def)

lemma parse_value_null:
  "parse_value (Suc n) (str ''null'' @ r) = Inr (JNull, r)"
  by (simp add: str_def parse_literal_def)

lemma parse_value_number:
  assumes "c = 45 \<or> is_digit c"
  shows "parse_value (Suc n) (c # s) =
     (case parse_number (c # s) of Inl e \<Rightarrow> Inl e | Inr (x, r') \<Rightarrow> Inr (JNum x, r'))"
  using assms by (auto simp add: is_digit_def)

lemma parse_value_integer:
  assumes "\<bar>i\<bar> < 10 ^ 21" and "follow_ok r"
  shows "parse_value (Suc n) (number_to_string (Integer i) @ r) = Inr (JNum (Integer i), r)"
proof -
  from assms(1) have "plain (JNum (Integer i))" by simp
  from stringify_start [OF this] obtain c s where
    cs: "number_to_string (Integer i) = c # s" and "value_start c"
    by auto
  have c: "c = 45 \<or> is_digit c"
  proof (cases "i < 0")
    case True
    with cs show ?thesis by simp
  next
    case False
    with assms(1) have "nat i < 10 ^ 21" by (rule abs_bound_pos)
    with False cs hd_digits_is_digit [of "nat i"] show ?thesis
      by (simp add: integer_form_small)
  qed
  have "parse_value (Suc n) (c # s @ r)
      = (case parse_number (c # s @ r) of Inl e \<Rightarrow> Inl e | Inr (x, r') \<Rightarrow> Inr (JNum x, r'))"
    using c by (rule parse_value_number)
  moreover have "parse_number (c # s @ r) = Inr (Integer i, r)"
    using parse_number_to_string [OF assms] cs by simp
  ultimately show ?thesis
    using cs by simp
qed

lemma update_fresh: "k \<notin> fst ` set al \<Longrightarrow> AList.update k v al = al @ [(k, v)]"
  by (induction al) auto

lemma object_of_distinct_aux:
  "distinct (map fst ms) \<Longrightarrow> fst ` set acc \<inter> fst ` set ms = {} \<Longrightarrow>
   foldl (\<lambda>obj m. AList.update (fst m) (snd m) obj) acc ms = acc @ ms"
proof (induction ms arbitrary: acc)
  case Nil
  show ?case by simp
next
  case (Cons m ms)
  from Cons.prems have fresh: "fst m \<notin> fst ` set acc" by auto
  have "foldl (\<lambda>obj m. AList.update (fst m) (snd m) obj) (acc @ [m]) ms = (acc @ [m]) @ ms"
    using Cons.prems by (intro Cons.IH) auto
  with fresh show ?case by (simp add: update_fresh)
qed

lemma object_of_distinct: "distinct (map fst ms) \<Longrightarrow> object_of ms = ms"
  using object_of_distinct_aux [of ms "[]"] by (simp add: object_of_def)

lemma elements_start:
  assumes "vs \<noteq> []" and "list_all plain vs"
  shows "\<exists>c s. join_comma (map JSON_stringify vs) = c # s \<and> value_start c"
proof -
  from assms obtain v ws where vs: "vs = v # ws" and "plain v"
    by (cases vs) auto
  from stringify_start [OF this(2)] obtain c s where "JSON_stringify v = c # s" "value_start c"
    by auto
  with vs show ?thesis by (cases ws) auto
qed

lemma parse_elements_stringify:
  assumes "\<And>v n r. v \<in> set vs \<Longrightarrow> cost v \<le> n \<Longrightarrow> follow_ok r \<Longrightarrow>
             parse_value n (JSON_stringify v @ r) = Inr (v, r)"
    and "list_all plain vs" and "vs \<noteq> []" and "elems_cost (map cost vs) \<le> n"
  shows "parse_elements n (join_comma (map JSON_stringify vs) @ 93 # r) = Inr (vs, r)"
  using assms
proof (induction vs arbitrary: n)
  case Nil
  then show ?case by simp
next
  case (Cons v ws)
  from Cons.prems(4) obtain m where n: "n = Suc m" and m: "cost v \<le> m" "elems_cost (map cost ws) \<le> m"
    by (cases n) auto
  from Cons.prems(2) have "plain v" by simp
  from stringify_start [OF this] obtain c s where cs: "JSON_stringify v = c # s" "value_start c"
    by auto
  then have skip: "skip_ws (JSON_stringify v @ t) = JSON_stringify v @ t" for t
    by (simp add: skip_ws_Cons value_start_not_ws)
  have v: "parse_value m (JSON_stringify v @ t) = Inr (v, t)" if "follow_ok t" for t
    using Cons.prems(1) [of v m t] m that by simp
  show ?case
  proof (cases ws)
    case Nil
    then show ?thesis
      by (simp add: n skip v skip_ws_Cons is_json_ws_def)
  next
    case rest: (Cons w ws')
    have "parse_elements m (join_comma (map JSON_stringify ws) @ 93 # r) = Inr (ws, r)"
      using Cons.prems rest m by (intro Cons.IH) simp_all
    with rest show ?thesis
      by (simp add: n skip v skip_ws_Cons is_json_ws_def)
  qed
qed

lemma parse_members_stringify:
  assumes "\<And>m n r. m \<in> set ms \<Longrightarrow> cost (snd m) \<le> n \<Longrightarrow> follow_ok r \<Longrightarrow>
             parse_value n (JSON_stringify (snd m) @ r) = Inr (snd m, r)"
    and "list_all (\<lambda>m. plain (snd m)) ms" and "ms \<noteq> []"
    and "elems_cost (map (\<lambda>m. cost (snd m)) ms) \<le> n"
  shows "parse_members n (join_comma (map member_string ms) @ 125 # r) = Inr (ms, r)"
  using assms
proof (induction ms arbitrary: n)
  case Nil
  then show ?case by simp
next
  case (Cons m ms')
  obtain k v where kv: "m = (k, v)" by (cases m)
  from Cons.prems(4) obtain j where n: "n = Suc j"
    and j: "cost v \<le> j" "elems_cost (map (\<lambda>m. cost (snd m)) ms') \<le> j"
    by (cases n) (auto simp add: kv)
  from Cons.prems(2) have "plain v" by (simp add: kv)
  from stringify_start [OF this] obtain c s where cs: "JSON_stringify v = c # s" "value_start c"
    by auto
  then have skip: "skip_ws (JSON_stringify v @ t) = JSON_stringify v @ t" for t
    by (simp add: skip_ws_Cons value_start_not_ws)
  have v: "parse_value j (JSON_stringify v @ t) = Inr (v, t)" if "follow_ok t" for t
    using Cons.prems(1) [of m j t] j that by (simp add: kv)
  have key: "parse_string_chars (quote_chars k @ 34 # t) = Inr (k, t)" for t
    by (rule parse_quote_chars)
  have first: "member_string (k, v) = 34 # quote_chars k @ 34 # 58 # JSON_stringify v"
    by (simp add: member_string_def QuoteJSONString_def)
  show ?case
  proof (cases ms')
    case Nil
    then show ?thesis
      by (simp add: n kv first key skip v skip_ws_Cons is_json_ws_def)
  next
    case rest: (Cons m' ms'')
    have "parse_members j (join_comma (map member_string ms') @ 125 # r) = Inr (ms', r)"
      using Cons.prems rest j by (intro Cons.IH) simp_all
    with rest show ?thesis
      by (simp add: n kv first key skip v skip_ws_Cons is_json_ws_def)
  qed
qed

lemma stringify_object:
  "JSON_stringify (JObj ms) = 123 # join_comma (map member_string ms) @ [125]"
proof -
  have "member_string = (\<lambda>m. QuoteJSONString (fst m) @ 58 # JSON_stringify (snd m))"
    by (rule ext) (simp add: member_string_def)
  then show ?thesis by simp
qed

lemma members_start:
  assumes "ms \<noteq> []"
  shows "\<exists>s. join_comma (map member_string ms) = 34 # s"
proof -
  from assms obtain m ms' where "ms = m # ms'" by (cases ms) auto
  then show ?thesis
    by (cases ms') (simp_all add: member_string_def QuoteJSONString_def)
qed

lemma parse_stringify:
  assumes "plain v" and "cost v \<le> n" and "follow_ok r"
  shows "parse_value n (JSON_stringify v @ r) = Inr (v, r)"
  using assms
proof (induction v arbitrary: n r)
  case JNull
  then show ?case
    by (cases n) (simp_all add: parse_value_null del: parse_value.simps)
next
  case (JBool b)
  then show ?case
    by (cases n) (simp_all add: parse_value_true parse_value_false del: parse_value.simps)
next
  case (JNum x)
  from JNum.prems(1) obtain i where x: "x = Integer i" and i: "\<bar>i\<bar> < 10 ^ 21"
    by (cases x) simp_all
  from JNum.prems(2) obtain m where "n = Suc m" by (cases n) auto
  with x i JNum.prems(3) show ?case
    by (simp add: parse_value_integer del: parse_value.simps number_to_string.simps)
next
  case (JStr s)
  from JStr.prems(2) obtain m where "n = Suc m" by (cases n) auto
  then show ?case
    by (simp add: QuoteJSONString_def parse_quote_chars parse_value_string del: parse_value.simps)
next
  case (JArr vs)
  from JArr.prems(2) obtain m where n: "n = Suc m" and m: "elems_cost (map cost vs) \<le> m"
    by (cases n) auto
  show ?case
  proof (cases "vs = []")
    case True
    then show ?thesis
      by (simp add: n skip_ws_Cons is_json_ws_def)
  next
    case False
    from JArr.prems(1) have pl: "list_all plain vs" by simp
    have el: "parse_elements m (join_comma (map JSON_stringify vs) @ 93 # r) = Inr (vs, r)"
    proof (rule parse_elements_stringify [OF _ pl False m])
      fix v k t
      assume "v \<in> set vs" and "cost v \<le> k" and "follow_ok t"
      moreover from \<open>v \<in> set vs\<close> pl have "plain v" by (simp add: list_all_iff)
      ultimately show "parse_value k (JSON_stringify v @ t) = Inr (v, t)"
        by (intro JArr.IH)
    qed
    from elements_start [OF False pl] obtain c s where
      cs: "join_comma (map JSON_stringify vs) = c # s" and c: "value_start c"
      by auto
    from c have "c \<noteq> 93" and "\<not> is_json_ws c"
      by (auto simp add: value_start_def is_digit_def is_json_ws_def)
    with cs el show ?thesis
      by (simp add: n skip_ws_Cons del: parse_value.simps add: parse_value_array)
  qed
next
  case (JObj ms)
  from JObj.prems(2) obtain m where n: "n = Suc m"
    and m: "elems_cost (map (\<lambda>m. cost (snd m)) ms) \<le> m"
    by (cases n) auto
  from JObj.prems(1) have dist: "distinct (map fst ms)"
    and pl: "list_all (\<lambda>m. plain (snd m)) ms"
    by simp_all
  show ?case
  proof (cases "ms = []")
    case True
    then show ?thesis
      by (simp add: n skip_ws_Cons is_json_ws_def)
  next
    case False
    have mem: "parse_members m (join_comma (map member_string ms) @ 125 # r) = Inr (ms, r)"
    proof (rule parse_members_stringify [OF _ pl False m])
      fix e k t
      assume "e \<in> set ms" and "cost (snd e) \<le> k" and "follow_ok t"
      moreover from \<open>e \<in> set ms\<close> pl have "plain (snd e)" by (simp add: list_all_iff)
      moreover have "snd e \<in> Basic_BNFs.snds e" by (cases e) simp
      ultimately show "parse_value k (JSON_stringify (snd e) @ t) = Inr (snd e, t)"
        by (intro JObj.IH)
    qed
    from members_start [OF False] obtain s where
      cs: "join_comma (map member_string ms) = 34 # s"
      by auto
    with mem dist show ?thesis
      unfolding stringify_object
      by (simp add: n skip_ws_Cons is_json_ws_def object_of_distinct
          del: parse_value.simps add: parse_value_object)
  qed
qed

lemma elems_cost_le:
  assumes "list_all2 (\<lambda>c s. c \<le> length s \<and> 1 \<le> length s) cs ss"
  shows "elems_cost cs \<le> length (join_comma ss) + 1"
  using assms
proof (induction cs ss rule: list_all2_induct)
  case Nil
  show ?case by simp
next
  case (Cons c cs s ss)
  then show ?case by (cases ss) auto
qed

lemma stringify_length: "plain v \<Longrightarrow> 1 \<le> length (JSON_stringify v)"
  using stringify_start [of v] by auto

lemma cost_le_length:
  assumes "plain v"
  shows "cost v \<le> length (JSON_stringify v)"
  using assms
proof (induction v)
  case JNull
  show ?case by (simp add: str_def)
next
  case (JBool b)
  show ?case by (simp add: str_def)
next
  case (JNum x)
  from stringify_length [OF JNum.prems] show ?case by simp
next
  case (JStr s)
  show ?case by (simp add: QuoteJSONString_def)
next
  case (JArr vs)
  have "list_all2 (\<lambda>c s. c \<le> length s \<and> 1 \<le> length s) (map cost vs) (map JSON_stringify vs)"
    unfolding list_all2_map1 list_all2_map2
  proof (rule list_all2_all_nthI, simp, intro conjI)
    fix i assume "i < length vs"
    then have "vs ! i \<in> set vs" by simp
    moreover from this JArr.prems have "plain (vs ! i)" by (simp add: list_all_iff)
    ultimately show "cost (vs ! i) \<le> length (JSON_stringify (vs ! i))"
      and "1 \<le> length (JSON_stringify (vs ! i))"
      using JArr.IH stringify_length by simp_all
  qed
  from elems_cost_le [OF this] show ?case by simp
next
  case (JObj ms)
  have "list_all2 (\<lambda>c s. c \<le> length s \<and> 1 \<le> length s)
          (map (\<lambda>m. cost (snd m)) ms) (map member_string ms)"
    unfolding list_all2_map1 list_all2_map2
  proof (rule list_all2_all_nthI, simp, intro conjI)
    fix i assume "i < length ms"
    then have mem: "ms ! i \<in> set ms" by simp
    moreover from this JObj.prems have "plain (snd (ms ! i))" by (simp add: list_all_iff)
    moreover have "snd (ms ! i) \<in> Basic_BNFs.snds (ms ! i)" by (cases "ms ! i") simp
    ultimately have "cost (snd (ms ! i)) \<le> length (JSON_stringify (snd (ms ! i)))"
      using JObj.IH by blast
    then show "cost (snd (ms ! i)) \<le> length (member_string (ms ! i))"
      and "1 \<le> length (member_string (ms ! i))"
      by (simp_all add: member_string_def)
  qed
  from elems_cost_le [OF this] show ?case
    unfolding stringify_object by simp
qed

lemma JSON_parse_stringify:
  assumes "plain v"
  shows "JSON_parse (JSON_stringify v) = Inr v"
proof -
  from stringify_start [OF assms] obtain c s where cs: "JSON_stringify v = c # s" "value_start c"
    by auto
  then have skip: "skip_ws (JSON_stringify v) = JSON_stringify v"
    by (simp add: skip_ws_Cons value_start_not_ws)
  have "cost v \<le> 2 * length (JSON_stringify v) + 1"
    using cost_le_length [OF assms] by simp
  from parse_stringify [OF assms this, of "[]"]
  have "parse_value (2 * length (JSON_stringify v) + 1) (JSON_stringify v) = Inr (v, [])"
    by simp
  moreover have "skip_ws [] = []"
    by (simp add: skip_ws_def)
  ultimately show ?thesis
    by (simp add: JSON_parse_def skip del: parse_value.simps)
qed

subsection \<open>The recursion budget of \<open>JSON_parse\<close> is never used up\<close>

text \<open>
  Every parser that returns has consumed at least one code unit, so a budget of more
  than twice the length of the text is enough on every text, valid or not.
\<close>

lemma cons_char_Inr_iff:
  "cons_char c x = Inr (t, r) \<longleftrightarrow> (\<exists>t'. x = Inr (t', r) \<and> t = c # t')"
  by (auto simp add: cons_char_def split: sum.splits)

lemma cons_char_Inl_iff: "cons_char c x = Inl e \<longleftrightarrow> x = Inl e"
  by (auto simp add: cons_char_def split: sum.splits)

lemma parse_string_chars_shorter:
  "parse_string_chars s = Inr (t, r) \<Longrightarrow> length r < length s"
proof (induction "length s" arbitrary: s t rule: less_induct)
  case less
  show ?case
  proof (cases s)
    case Nil
    with less.prems show ?thesis by simp
  next
    case (Cons c s')
    have IH: "parse_string_chars u = Inr (t', r) \<Longrightarrow> length u \<le> length s' \<Longrightarrow> length r < length s"
      for u t'
      using less.hyps [of u t'] Cons by simp
    from less.prems Cons show ?thesis
      by (auto simp add: cons_char_Inr_iff split: if_splits list.splits option.splits
          dest: IH)
  qed
qed

lemma parse_string_chars_error:
  "parse_string_chars s = Inl e \<Longrightarrow> e = SyntaxError"
proof (induction "length s" arbitrary: s rule: less_induct)
  case less
  show ?case
  proof (cases s)
    case Nil
    with less.prems show ?thesis by simp
  next
    case (Cons c s')
    have IH: "parse_string_chars u = Inl e \<Longrightarrow> length u \<le> length s' \<Longrightarrow> e = SyntaxError"
      for u
      using less.hyps [of u] Cons by simp
    from less.prems Cons show ?thesis
      by (auto simp add: cons_char_Inl_iff split: if_splits list.splits option.splits
          dest: IH)
  qed
qed

lemma parse_sign_length: "parse_sign s = (neg, s1) \<Longrightarrow> length s1 \<le> length s"
  by (auto simp add: parse_sign_def split: list.splits if_splits)

lemma parse_int_part_length:
  "parse_int_part s = (ip, s2) \<Longrightarrow> length ip + length s2 = length s"
proof -
  have "length (takeWhile is_digit s) + length (dropWhile is_digit s) = length s"
    by (metis length_append takeWhile_dropWhile_id)
  then show "parse_int_part s = (ip, s2) \<Longrightarrow> length ip + length s2 = length s"
    by (auto simp add: parse_int_part_def split: list.splits if_splits)
qed

lemma parse_frac_length: "parse_frac s = Inr (fp, s3) \<Longrightarrow> length s3 \<le> length s"
  by (auto simp add: parse_frac_def length_dropWhile_le le_SucI split: list.splits if_splits)

lemma parse_frac_error: "parse_frac s = Inl e \<Longrightarrow> e = SyntaxError"
  by (auto simp add: parse_frac_def split: list.splits if_splits)

lemma parse_exp_length: "parse_exp s = Inr (x, s4) \<Longrightarrow> length s4 \<le> length s"
proof -
  have "length (dropWhile is_digit u) \<le> Suc (Suc (length u))" for u
    using length_dropWhile_le [of is_digit u] by simp
  moreover have "length (dropWhile is_digit u) \<le> Suc (length u)" for u
    using length_dropWhile_le [of is_digit u] by simp
  ultimately show "parse_exp s = Inr (x, s4) \<Longrightarrow> length s4 \<le> length s"
    by (auto simp add: parse_exp_def length_dropWhile_le split: list.splits if_splits)
qed

lemma parse_exp_error: "parse_exp s = Inl e \<Longrightarrow> e = SyntaxError"
  by (auto simp add: parse_exp_def split: list.splits if_splits)

lemma parse_number_shorter:
  assumes "parse_number s = Inr (x, r)"
  shows "length r < length s"
proof -
  obtain neg s1 where s1: "parse_sign s = (neg, s1)" by (cases "parse_sign s")
  obtain ip s2 where s2: "parse_int_part s1 = (ip, s2)" by (cases "parse_int_part s1")
  from assms s1 s2 have ip: "ip \<noteq> []"
    by (auto simp add: parse_number_def split: if_splits)
  from assms s1 s2 ip obtain fp s3 where s3: "parse_frac s2 = Inr (fp, s3)"
    by (auto simp add: parse_number_def split: sum.splits)
  from assms s1 s2 ip s3 obtain y where s4: "parse_exp s3 = Inr (y, r)"
    by (auto simp add: parse_number_def split: sum.splits)
  from parse_sign_length [OF s1] parse_int_part_length [OF s2] ip
    parse_frac_length [OF s3] parse_exp_length [OF s4]
  show ?thesis by (cases ip) auto
qed

lemma parse_number_error: "parse_number s = Inl e \<Longrightarrow> e = SyntaxError"
  by (auto simp add: parse_number_def split: prod.splits if_splits sum.splits
      dest: parse_frac_error parse_exp_error)

lemma parse_literal_shorter:
  "w \<noteq> [] \<Longrightarrow> parse_literal w v s = Inr (x, r) \<Longrightarrow> length r < length s"
  by (cases w; cases s) (auto simp add: parse_literal_def split: if_splits)

lemma parse_literal_error: "parse_literal w v s = Inl e \<Longrightarrow> e = SyntaxError"
  by (auto simp add: parse_literal_def split: if_splits)

lemma skip_ws_length: "length (skip_ws s) \<le> length s"
  by (simp add: skip_ws_def length_dropWhile_le)

lemma skip_ws_Cons_length: "skip_ws s = d # r \<Longrightarrow> length r < length s"
  using skip_ws_length [of s] by simp

lemma parse_shorter:
  "(\<forall>s v r. parse_value n s = Inr (v, r) \<longrightarrow> length r < length s)
   \<and> (\<forall>s vs r. parse_elements n s = Inr (vs, r) \<longrightarrow> length r < length s)
   \<and> (\<forall>s ms r. parse_members n s = Inr (ms, r) \<longrightarrow> length r < length s)"
proof (induction n)
  case 0
  show ?case by simp
next
  case (Suc n)
  then have val: "parse_value n s = Inr (v, r) \<Longrightarrow> length r < length s"
    and els: "parse_elements n s = Inr (vs, r) \<Longrightarrow> length r < length s"
    and mems: "parse_members n s = Inr (ms, r) \<Longrightarrow> length r < length s"
    for s v vs ms r
    by blast+
  have "length r < length s" if "parse_value (Suc n) s = Inr (v, r)" for s v r
  proof (cases s)
    case Nil
    with that show ?thesis by simp
  next
    case (Cons c t)
    consider (obj) "c = 123" | (arr) "c = 91" | (string) "c = 34" | (true) "c = 116"
      | (false) "c = 102" | (null) "c = 110"
      | (num) "c \<noteq> 123" "c \<noteq> 91" "c \<noteq> 34" "c \<noteq> 116" "c \<noteq> 102" "c \<noteq> 110"
      by blast
    then show ?thesis
    proof cases
      case obj
      with that Cons show ?thesis
        by (auto simp add: parse_value_object simp del: parse_value.simps
            split: list.splits if_splits sum.splits
            dest!: mems skip_ws_Cons_length)
    next
      case arr
      with that Cons show ?thesis
        by (auto simp add: parse_value_array simp del: parse_value.simps
            split: list.splits if_splits sum.splits
            dest!: els skip_ws_Cons_length)
    next
      case string
      with that Cons show ?thesis
        by (auto simp add: parse_value_string simp del: parse_value.simps
            split: sum.splits dest!: parse_string_chars_shorter)
    next
      case true
      with that Cons have "parse_literal (str ''true'') (JBool True) s = Inr (v, r)" by simp
      then show ?thesis by (rule parse_literal_shorter [rotated]) (simp add: str_def)
    next
      case false
      with that Cons have "parse_literal (str ''false'') (JBool False) s = Inr (v, r)" by simp
      then show ?thesis by (rule parse_literal_shorter [rotated]) (simp add: str_def)
    next
      case null
      with that Cons have "parse_literal (str ''null'') JNull s = Inr (v, r)" by simp
      then show ?thesis by (rule parse_literal_shorter [rotated]) (simp add: str_def)
    next
      case num
      with that Cons obtain x where "parse_number s = Inr (x, r)"
        by (auto split: if_splits sum.splits)
      then show ?thesis by (rule parse_number_shorter)
    qed
  qed
  moreover have "length r < length s" if "parse_elements (Suc n) s = Inr (vs, r)" for s vs r
  proof -
    from that obtain v r1 where v: "parse_value n (skip_ws s) = Inr (v, r1)"
      by (auto split: sum.splits)
    from val [OF this] skip_ws_length [of s] have r1: "length r1 < length s" by simp
    from that v obtain d r2 where d: "skip_ws r1 = d # r2"
      by (auto split: list.splits)
    from skip_ws_Cons_length [OF this] r1 have r2: "length r2 < length s" by simp
    from that v d have "r = r2 \<or> (\<exists>ws. parse_elements n r2 = Inr (ws, r))"
      by (auto split: if_splits sum.splits)
    with r2 els show ?thesis by force
  qed
  moreover have "length r < length s" if "parse_members (Suc n) s = Inr (ms, r)" for s ms r
  proof -
    from that obtain t where q: "skip_ws s = 34 # t"
      by (auto split: list.splits if_splits)
    from skip_ws_Cons_length [OF this] have t: "length t < length s" .
    from that q obtain k r1 where k: "parse_string_chars t = Inr (k, r1)"
      by (auto split: sum.splits)
    from parse_string_chars_shorter [OF this] t have r1: "length r1 < length s" by simp
    from that q k obtain r2 where c: "skip_ws r1 = 58 # r2"
      by (auto split: list.splits if_splits)
    from skip_ws_Cons_length [OF this] r1 have r2: "length r2 < length s" by simp
    from that q k c obtain v r3 where v: "parse_value n (skip_ws r2) = Inr (v, r3)"
      by (auto split: sum.splits)
    from val [OF this] skip_ws_length [of r2] r2 have r3: "length r3 < length s" by simp
    from that q k c v obtain d r4 where d: "skip_ws r3 = d # r4"
      by (auto split: list.splits)
    from skip_ws_Cons_length [OF this] r3 have r4: "length r4 < length s" by simp
    from that q k c v d have "r = r4 \<or> (\<exists>ws. parse_members n r4 = Inr (ws, r))"
      by (auto split: if_splits sum.splits)
    with r4 mems show ?thesis by force
  qed
  ultimately show ?case by blast
qed

lemma parse_value_shorter: "parse_value n s = Inr (v, r) \<Longrightarrow> length r < length s"
  using parse_shorter [of n] by blast

lemma parse_budget:
  "(\<forall>s. 2 * length s < n \<longrightarrow> parse_value n s \<noteq> Inl RangeError)
   \<and> (\<forall>s. 2 * length s + 1 < n \<longrightarrow> parse_elements n s \<noteq> Inl RangeError)
   \<and> (\<forall>s. 2 * length s + 1 < n \<longrightarrow> parse_members n s \<noteq> Inl RangeError)"
proof (induction n)
  case 0
  show ?case by simp
next
  case (Suc n)
  then have val: "2 * length s < n \<Longrightarrow> parse_value n s \<noteq> Inl RangeError"
    and els: "2 * length s + 1 < n \<Longrightarrow> parse_elements n s \<noteq> Inl RangeError"
    and mems: "2 * length s + 1 < n \<Longrightarrow> parse_members n s \<noteq> Inl RangeError"
    for s
    by blast+
  have "parse_value (Suc n) s \<noteq> Inl RangeError" if "2 * length s < Suc n" for s
  proof (cases s)
    case Nil
    then show ?thesis by simp
  next
    case (Cons c t)
    have inner: "2 * length u + 1 < n" if "skip_ws t = d # u" for d u
      using skip_ws_Cons_length [OF that] Cons \<open>2 * length s < Suc n\<close> by simp
    have inner': "2 * length (d # u) + 1 < n" if "skip_ws t = d # u" for d u
      using skip_ws_length [of t] that Cons \<open>2 * length s < Suc n\<close> by simp
    consider (obj) "c = 123" | (arr) "c = 91" | (string) "c = 34" | (true) "c = 116"
      | (false) "c = 102" | (null) "c = 110"
      | (num) "c \<noteq> 123" "c \<noteq> 91" "c \<noteq> 34" "c \<noteq> 116" "c \<noteq> 102" "c \<noteq> 110"
      by blast
    then show ?thesis
    proof cases
      case obj
      show ?thesis
      proof
        assume "parse_value (Suc n) s = Inl RangeError"
        with obj Cons obtain d u where "skip_ws t = d # u" "parse_members n (d # u) = Inl RangeError"
          by (auto simp add: parse_value_object simp del: parse_value.simps
              split: list.splits if_splits sum.splits)
        with mems [OF inner'] show False by blast
      qed
    next
      case arr
      show ?thesis
      proof
        assume "parse_value (Suc n) s = Inl RangeError"
        with arr Cons obtain d u where "skip_ws t = d # u" "parse_elements n (d # u) = Inl RangeError"
          by (auto simp add: parse_value_array simp del: parse_value.simps
              split: list.splits if_splits sum.splits)
        with els [OF inner'] show False by blast
      qed
    next
      case string
      with Cons show ?thesis
        by (auto simp add: parse_value_string simp del: parse_value.simps
            split: sum.splits dest: parse_string_chars_error)
    next
      case true
      with Cons show ?thesis by (auto dest: parse_literal_error)
    next
      case false
      with Cons show ?thesis by (auto dest: parse_literal_error)
    next
      case null
      with Cons show ?thesis by (auto dest: parse_literal_error)
    next
      case num
      with Cons show ?thesis
        by (auto split: sum.splits dest: parse_number_error)
    qed
  qed
  moreover have "parse_elements (Suc n) s \<noteq> Inl RangeError" if b: "2 * length s + 1 < Suc n" for s
  proof
    assume err: "parse_elements (Suc n) s = Inl RangeError"
    from b skip_ws_length [of s] have "2 * length (skip_ws s) < n" by simp
    from val [OF this] err obtain v r1 where v: "parse_value n (skip_ws s) = Inr (v, r1)"
      by (auto split: sum.splits)
    from parse_value_shorter [OF this] skip_ws_length [of s] have r1: "length r1 < length s" by simp
    from err v obtain r2 where d: "skip_ws r1 = 44 # r2" and e: "parse_elements n r2 = Inl RangeError"
      by (auto split: list.splits if_splits sum.splits)
    from skip_ws_Cons_length [OF d] r1 b have "2 * length r2 + 1 < n" by simp
    from els [OF this] e show False by blast
  qed
  moreover have "parse_members (Suc n) s \<noteq> Inl RangeError" if b: "2 * length s + 1 < Suc n" for s
  proof
    assume err: "parse_members (Suc n) s = Inl RangeError"
    from err obtain t where q: "skip_ws s = 34 # t"
      by (auto split: list.splits if_splits)
    from skip_ws_Cons_length [OF this] have t: "length t < length s" .
    from err q parse_string_chars_error [of t RangeError]
    obtain k r1 where k: "parse_string_chars t = Inr (k, r1)"
      by (auto split: sum.splits)
    from parse_string_chars_shorter [OF this] t have r1: "length r1 < length s" by simp
    from err q k obtain r2 where c: "skip_ws r1 = 58 # r2"
      by (auto split: list.splits if_splits)
    from skip_ws_Cons_length [OF this] r1 have r2: "length r2 < length s" by simp
    with b skip_ws_length [of r2] have "2 * length (skip_ws r2) < n" by simp
    from val [OF this] err q k c obtain v r3 where v: "parse_value n (skip_ws r2) = Inr (v, r3)"
      by (auto split: sum.splits)
    from parse_value_shorter [OF this] skip_ws_length [of r2] r2 have r3: "length r3 < length s" by simp
    from err q k c v obtain r4 where d: "skip_ws r3 = 44 # r4"
      and e: "parse_members n r4 = Inl RangeError"
      by (auto split: list.splits if_splits sum.splits)
    from skip_ws_Cons_length [OF d] r3 b have "2 * length r4 + 1 < n" by simp
    from mems [OF this] e show False by blast
  qed
  ultimately show ?case by blast
qed

lemma JSON_parse_budget: "JSON_parse s \<noteq> Inl RangeError"
proof
  assume a: "JSON_parse s = Inl RangeError"
  have "2 * length (skip_ws s) < 2 * length s + 1"
    using skip_ws_length [of s] by simp
  with parse_budget [of "2 * length s + 1"]
  have "parse_value (2 * length s + 1) (skip_ws s) \<noteq> Inl RangeError" by blast
  with a show False
    by (auto simp add: JSON_parse_def simp del: parse_value.simps split: sum.splits if_splits)
qed

section \<open>Properties of the persistence adapter\<close>

text \<open>
  Two collections with the same value are the same collection, the value of a collection
  with safe timestamps is plain, and the storage returns what it has accepted.
\<close>

lemma todo_val_inj: "todo_val t = todo_val u \<Longrightarrow> t = u" for t u :: Todo
  by (cases t; cases u) (simp add: todo_val_def)

lemma todos_val_inj: "todos_val ts = todos_val us \<Longrightarrow> ts = us"
  by (simp add: todos_val_def inj_map_eq_map [OF injI] todo_val_inj)

lemma plain_todo_val: "isSafeInteger (createdAt t) \<Longrightarrow> plain (todo_val t)"
  by (cases "createdAt t") (simp_all add: todo_val_def str_def)

lemma plain_todos_val:
  "\<forall>t \<in> set ts. isSafeInteger (createdAt t) \<Longrightarrow> plain (todos_val ts)"
  by (simp add: todos_val_def list_all_iff plain_todo_val)

lemma getItem_setItem:
  "setItem k v b = Inr b1 \<Longrightarrow> getItem k b1 = Inr (Some v)"
  by (auto simp add: setItem_def getItem_def update_Some_unfold split: if_splits)

lemma length_STORAGE_KEY: "length STORAGE_KEY = 8"
  by (simp add: STORAGE_KEY_def str_def)

lemma getItem_browser_with: "getItem STORAGE_KEY (browser_with raw) = Inr (Some raw)"
  by (simp add: getItem_def browser_with_def fresh_browser_def)

text \<open>
  C1, in the form that holds of the code. \<open>loadTodos\<close> never lets an exception reach
  its caller. It returns the empty collection when nothing is stored under the key, when
  the stored string is empty, when reading the storage throws, and when the stored string
  is not JSON; in the last two cases it gives a warning. When the stored string is JSON,
  \<open>loadTodos\<close> returns the value that \<open>JSON.parse\<close> gives, as it is: nothing checks that
  the value is an array of Task records.
\<close>

theorem loadTodos_spec:
  "(\<exists>v b1. loadTodos b = Inr (v, b1))
   \<and> (getItem STORAGE_KEY b = Inr None \<longrightarrow> loadTodos b = Inr (JArr [], b))
   \<and> (getItem STORAGE_KEY b = Inr (Some []) \<longrightarrow> loadTodos b = Inr (JArr [], b))
   \<and> (\<forall>e. getItem STORAGE_KEY b = Inl e \<longrightarrow>
         loadTodos b = Inr (JArr [], console_warn (str ''Failed to load todos'') e b))
   \<and> (\<forall>s e. getItem STORAGE_KEY b = Inr (Some s) \<and> s \<noteq> [] \<and> JSON_parse s = Inl e \<longrightarrow>
         loadTodos b = Inr (JArr [], console_warn (str ''Failed to load todos'') e b))
   \<and> (\<forall>s v. getItem STORAGE_KEY b = Inr (Some s) \<and> s \<noteq> [] \<and> JSON_parse s = Inr v \<longrightarrow>
         loadTodos b = Inr (v, b))"
  by (auto simp add: loadTodos_def try_catch_def split: sum.splits option.splits)

theorem loadTodos_spec_witness:
  "getItem STORAGE_KEY fresh_browser = Inr None
   \<and> loadTodos fresh_browser = Inr (JArr [], fresh_browser)
   \<and> getItem STORAGE_KEY (browser_with []) = Inr (Some [])
   \<and> loadTodos (browser_with []) = Inr (JArr [], browser_with [])
   \<and> getItem STORAGE_KEY (fresh_browser\<lparr>storage_denied := True\<rparr>) = Inl SecurityError
   \<and> loadTodos (fresh_browser\<lparr>storage_denied := True\<rparr>)
       = Inr (JArr [], console_warn (str ''Failed to load todos'') SecurityError
               (fresh_browser\<lparr>storage_denied := True\<rparr>))
   \<and> JSON_parse (str ''[{nope'') = Inl SyntaxError
   \<and> loadTodos (browser_with (str ''[{nope''))
       = Inr (JArr [], console_warn (str ''Failed to load todos'') SyntaxError
               (browser_with (str ''[{nope'')))
   \<and> JSON_parse (str ''[true, 17]'') = Inr (JArr [JBool True, JNum (Integer 17)])
   \<and> loadTodos (browser_with (str ''[true, 17]''))
       = Inr (JArr [JBool True, JNum (Integer 17)], browser_with (str ''[true, 17]''))"
proof -
  have h1: "getItem STORAGE_KEY fresh_browser = Inr None"
    by (simp add: getItem_def fresh_browser_def)
  have h2: "getItem STORAGE_KEY (browser_with []) = Inr (Some [])"
    by (rule getItem_browser_with)
  have h3: "getItem STORAGE_KEY (fresh_browser\<lparr>storage_denied := True\<rparr>) = Inl SecurityError"
    by (simp add: getItem_def)
  have h4: "getItem STORAGE_KEY (browser_with (str ''[{nope'')) = Inr (Some (str ''[{nope''))"
    by (rule getItem_browser_with)
  have n4: "str ''[{nope'' \<noteq> []"
    by (simp add: str_def)
  have p4: "JSON_parse (str ''[{nope'') = Inl SyntaxError"
    by code_simp
  have h5: "getItem STORAGE_KEY (browser_with (str ''[true, 17]'')) = Inr (Some (str ''[true, 17]''))"
    by (rule getItem_browser_with)
  have n5: "str ''[true, 17]'' \<noteq> []"
    by (simp add: str_def)
  have p5: "JSON_parse (str ''[true, 17]'') = Inr (JArr [JBool True, JNum (Integer 17)])"
    by code_simp
  from loadTodos_spec [of fresh_browser] h1
  have c1: "loadTodos fresh_browser = Inr (JArr [], fresh_browser)" by blast
  from loadTodos_spec [of "browser_with []"] h2
  have c2: "loadTodos (browser_with []) = Inr (JArr [], browser_with [])" by blast
  from loadTodos_spec [of "fresh_browser\<lparr>storage_denied := True\<rparr>"] h3
  have c3: "loadTodos (fresh_browser\<lparr>storage_denied := True\<rparr>)
       = Inr (JArr [], console_warn (str ''Failed to load todos'') SecurityError
               (fresh_browser\<lparr>storage_denied := True\<rparr>))" by blast
  from loadTodos_spec [of "browser_with (str ''[{nope'')"] h4 n4 p4
  have c4: "loadTodos (browser_with (str ''[{nope''))
       = Inr (JArr [], console_warn (str ''Failed to load todos'') SyntaxError
               (browser_with (str ''[{nope'')))" by blast
  from loadTodos_spec [of "browser_with (str ''[true, 17]'')"] h5 n5 p5
  have c5: "loadTodos (browser_with (str ''[true, 17]''))
       = Inr (JArr [JBool True, JNum (Integer 17)], browser_with (str ''[true, 17]''))" by blast
  from h1 c1 h2 c2 h3 c3 p4 c4 p5 c5 show ?thesis by blast
qed

text \<open>
  C1 as stated fails: the stored text \<^verbatim>\<open>{"a":1}\<close> is JSON and not a Task Collection, and
  \<open>loadTodos\<close> returns the object it denotes, not the empty collection.
\<close>

theorem loadTodos_schema_counterexample:
  "JSON_parse [123, 34, 97, 34, 58, 49, 125] = Inr (JObj [(str ''a'', JNum (Integer 1))])
   \<and> \<not> is_task_collection (JObj [(str ''a'', JNum (Integer 1))])
   \<and> loadTodos (browser_with [123, 34, 97, 34, 58, 49, 125])
       = Inr (JObj [(str ''a'', JNum (Integer 1))], browser_with [123, 34, 97, 34, 58, 49, 125])
   \<and> JObj [(str ''a'', JNum (Integer 1))] \<noteq> JArr []"
proof -
  have p: "JSON_parse [123, 34, 97, 34, 58, 49, 125] = Inr (JObj [(str ''a'', JNum (Integer 1))])"
    by code_simp
  have "loadTodos (browser_with [123, 34, 97, 34, 58, 49, 125])
       = Inr (JObj [(str ''a'', JNum (Integer 1))], browser_with [123, 34, 97, 34, 58, 49, 125])"
    by (simp add: loadTodos_def try_catch_def getItem_browser_with p)
  with p show ?thesis by simp
qed

text \<open>
  C2, in the form that holds of the code. For a collection in which every \<open>createdAt\<close>
  is an integer in the safe range, as \<open>Date.now()\<close> gives, and a browser whose storage
  accepts the write, \<open>saveTodos\<close> followed by \<open>loadTodos\<close> gives the collection back: the
  same tasks with the same fields in the same order (\<open>todos_val\<close> is injective, lemma
  \<open>todos_val_inj\<close>).
\<close>

theorem save_load_roundtrip:
  assumes "\<forall>t \<in> set ts. isSafeInteger (createdAt t)"
    and "setItem STORAGE_KEY (JSON_stringify (todos_val ts)) b = Inr b1"
  shows "saveTodos ts b = Inr b1 \<and> loadTodos b1 = Inr (todos_val ts, b1)"
proof -
  from assms(2) have save: "saveTodos ts b = Inr b1"
    by (simp add: saveTodos_def try_catch_def)
  have "JSON_stringify (todos_val ts) \<noteq> []"
    by (simp add: todos_val_def)
  moreover have "JSON_parse (JSON_stringify (todos_val ts)) = Inr (todos_val ts)"
    using assms(1) by (intro JSON_parse_stringify plain_todos_val)
  ultimately have "loadTodos b1 = Inr (todos_val ts, b1)"
    using getItem_setItem [OF assms(2)]
    by (simp add: loadTodos_def try_catch_def del: JSON_stringify.simps)
  with save show ?thesis by simp
qed

theorem save_load_roundtrip_witness:
  "isSafeInteger (Integer 1700000000123) \<and> isSafeInteger (Integer 1700000000000)
   \<and> saveTodos [\<lparr>id' = str ''b'', text' = str ''Walk dog'', completed = False, createdAt = Integer 1700000000123\<rparr>,
               \<lparr>id' = str ''a'', text' = [66, 117, 121, 32, 34, 109, 105, 108, 107, 34, 10], completed = True, createdAt = Integer 1700000000000\<rparr>]
        fresh_browser
      = Inr (browser_with (JSON_stringify (todos_val
           [\<lparr>id' = str ''b'', text' = str ''Walk dog'', completed = False, createdAt = Integer 1700000000123\<rparr>,
            \<lparr>id' = str ''a'', text' = [66, 117, 121, 32, 34, 109, 105, 108, 107, 34, 10], completed = True, createdAt = Integer 1700000000000\<rparr>])))
   \<and> loadTodos (browser_with (JSON_stringify (todos_val
           [\<lparr>id' = str ''b'', text' = str ''Walk dog'', completed = False, createdAt = Integer 1700000000123\<rparr>,
            \<lparr>id' = str ''a'', text' = [66, 117, 121, 32, 34, 109, 105, 108, 107, 34, 10], completed = True, createdAt = Integer 1700000000000\<rparr>])))
      = Inr (todos_val
           [\<lparr>id' = str ''b'', text' = str ''Walk dog'', completed = False, createdAt = Integer 1700000000123\<rparr>,
            \<lparr>id' = str ''a'', text' = [66, 117, 121, 32, 34, 109, 105, 108, 107, 34, 10], completed = True, createdAt = Integer 1700000000000\<rparr>],
          browser_with (JSON_stringify (todos_val
           [\<lparr>id' = str ''b'', text' = str ''Walk dog'', completed = False, createdAt = Integer 1700000000123\<rparr>,
            \<lparr>id' = str ''a'', text' = [66, 117, 121, 32, 34, 109, 105, 108, 107, 34, 10], completed = True, createdAt = Integer 1700000000000\<rparr>])))"
proof -
  let ?ts = "[\<lparr>id' = str ''b'', text' = str ''Walk dog'', completed = False, createdAt = Integer 1700000000123\<rparr>,
              \<lparr>id' = str ''a'', text' = [66, 117, 121, 32, 34, 109, 105, 108, 107, 34, 10], completed = True, createdAt = Integer 1700000000000\<rparr>]"
  have h1: "\<forall>t \<in> set ?ts. isSafeInteger (createdAt t)"
    by simp
  have len: "length (JSON_stringify (todos_val ?ts)) = 152"
    by (simp add: todos_val_def todo_val_def str_def QuoteJSONString_def integer_form_def
        digits.simps is_high_surrogate_def is_low_surrogate_def)
  have h2: "setItem STORAGE_KEY (JSON_stringify (todos_val ?ts)) fresh_browser
      = Inr (browser_with (JSON_stringify (todos_val ?ts)))"
    by (simp add: setItem_def fresh_browser_def browser_with_def storage_usage_def len
        length_STORAGE_KEY del: JSON_stringify.simps)
  from save_load_roundtrip [OF h1 h2] show ?thesis
    by simp
qed

text \<open>
  C2 as stated fails: \<open>Infinity\<close> is a number, \<open>JSON.stringify\<close> writes it as \<open>null\<close>, and
  \<open>loadTodos\<close> returns a task whose \<open>createdAt\<close> is \<open>null\<close>. It also fails when the
  storage rejects the write: \<open>saveTodos\<close> catches the exception and \<open>loadTodos\<close> finds what
  was stored before, here nothing.
\<close>

theorem save_load_counterexample:
  "saveTodos [\<lparr>id' = str ''a'', text' = str ''x'', completed = False, createdAt = PosInfinity\<rparr>]
      fresh_browser
     = Inr (browser_with (JSON_stringify (todos_val
         [\<lparr>id' = str ''a'', text' = str ''x'', completed = False, createdAt = PosInfinity\<rparr>])))
   \<and> loadTodos (browser_with (JSON_stringify (todos_val
         [\<lparr>id' = str ''a'', text' = str ''x'', completed = False, createdAt = PosInfinity\<rparr>])))
     = Inr (JArr [JObj [(str ''id'', JStr (str ''a'')), (str ''text'', JStr (str ''x'')),
                        (str ''completed'', JBool False), (str ''createdAt'', JNull)]],
            browser_with (JSON_stringify (todos_val
         [\<lparr>id' = str ''a'', text' = str ''x'', completed = False, createdAt = PosInfinity\<rparr>])))
   \<and> JArr [JObj [(str ''id'', JStr (str ''a'')), (str ''text'', JStr (str ''x'')),
                  (str ''completed'', JBool False), (str ''createdAt'', JNull)]]
     \<noteq> todos_val [\<lparr>id' = str ''a'', text' = str ''x'', completed = False, createdAt = PosInfinity\<rparr>]
   \<and> saveTodos [\<lparr>id' = str ''a'', text' = str ''x'', completed = False, createdAt = Integer 1\<rparr>]
        (fresh_browser\<lparr>storage_quota := 10\<rparr>)
     = Inr (console_warn (str ''Failed to save todos'') QuotaExceededError
             (fresh_browser\<lparr>storage_quota := 10\<rparr>))
   \<and> loadTodos (console_warn (str ''Failed to save todos'') QuotaExceededError
             (fresh_browser\<lparr>storage_quota := 10\<rparr>))
     = Inr (JArr [], console_warn (str ''Failed to save todos'') QuotaExceededError
             (fresh_browser\<lparr>storage_quota := 10\<rparr>))
   \<and> JArr [] \<noteq> todos_val [\<lparr>id' = str ''a'', text' = str ''x'', completed = False, createdAt = Integer 1\<rparr>]"
proof -
  let ?ts = "[\<lparr>id' = str ''a'', text' = str ''x'', completed = False, createdAt = PosInfinity\<rparr>]"
  let ?v = "JArr [JObj [(str ''id'', JStr (str ''a'')), (str ''text'', JStr (str ''x'')),
                        (str ''completed'', JBool False), (str ''createdAt'', JNull)]]"
  have len: "length (JSON_stringify (todos_val ?ts)) = 58"
    by code_simp
  have ne: "JSON_stringify (todos_val ?ts) \<noteq> []"
    using len by auto
  have "setItem STORAGE_KEY (JSON_stringify (todos_val ?ts)) fresh_browser
      = Inr (browser_with (JSON_stringify (todos_val ?ts)))"
    by (simp add: setItem_def fresh_browser_def browser_with_def storage_usage_def len
        length_STORAGE_KEY del: JSON_stringify.simps)
  then have s: "saveTodos ?ts fresh_browser = Inr (browser_with (JSON_stringify (todos_val ?ts)))"
    by (simp add: saveTodos_def try_catch_def del: JSON_stringify.simps)
  have p: "JSON_parse (JSON_stringify (todos_val ?ts)) = Inr ?v"
    by code_simp
  have l: "loadTodos (browser_with (JSON_stringify (todos_val ?ts)))
      = Inr (?v, browser_with (JSON_stringify (todos_val ?ts)))"
    using ne by (simp add: loadTodos_def try_catch_def getItem_browser_with p del: JSON_stringify.simps)
  have d: "?v \<noteq> todos_val ?ts"
    by (simp add: todos_val_def todo_val_def)
  let ?us = "[\<lparr>id' = str ''a'', text' = str ''x'', completed = False, createdAt = Integer 1\<rparr>]"
  let ?b = "fresh_browser\<lparr>storage_quota := 10\<rparr>"
  have len': "length (JSON_stringify (todos_val ?us)) = 55"
    by code_simp
  have "setItem STORAGE_KEY (JSON_stringify (todos_val ?us)) ?b = Inl QuotaExceededError"
    by (simp add: setItem_def fresh_browser_def storage_usage_def len' length_STORAGE_KEY
        del: JSON_stringify.simps)
  then have s': "saveTodos ?us ?b
      = Inr (console_warn (str ''Failed to save todos'') QuotaExceededError ?b)"
    by (simp add: saveTodos_def try_catch_def del: JSON_stringify.simps)
  have l': "loadTodos (console_warn (str ''Failed to save todos'') QuotaExceededError ?b)
      = Inr (JArr [], console_warn (str ''Failed to save todos'') QuotaExceededError ?b)"
    by (simp add: loadTodos_def try_catch_def getItem_def console_warn_def fresh_browser_def)
  have d': "JArr [] \<noteq> todos_val ?us"
    by (simp add: todos_val_def)
  from s l d s' l' d' show ?thesis by blast
qed

section \<open>Properties of the task store\<close>

lemma visible_All: "filter' st = F_all \<Longrightarrow> visible st = todos st"
  by (simp add: visible_def)

lemma visible_Active: "filter' st = F_active \<Longrightarrow> visible st = filter (\<lambda>t. \<not> completed t) (todos st)"
  by (simp add: visible_def)

lemma visible_Completed: "filter' st = F_completed \<Longrightarrow> visible st = filter completed (todos st)"
  by (simp add: visible_def)

text \<open>
  C3. When the trimmed content \<open>s\<close> of the input box is not empty, \<open>addTodo\<close> puts one
  new task in front of the collection, with the trimmed \<open>s\<close> as its text and
  \<open>completed = false\<close>, so the collection grows by exactly one; when the trimmed content
  is empty, \<open>addTodo\<close> changes nothing.
\<close>

theorem addTodo_spec:
  "(trim s \<noteq> [] \<longrightarrow>
      todos (addTodo uuid now (setText s st))
        = \<lparr>id' = uuid, text' = trim s, completed = False, createdAt = now\<rparr> # todos st
      \<and> length (todos (addTodo uuid now (setText s st))) = length (todos st) + 1)
   \<and> (trim s = [] \<longrightarrow> addTodo uuid now (setText s st) = setText s st
        \<and> todos (addTodo uuid now (setText s st)) = todos st)"
  by (simp add: addTodo_def setText_def Let_def)

theorem addTodo_spec_witness:
  "trim (str '' Buy milk '') = str ''Buy milk''
   \<and> todos (addTodo (str ''u1'') (Integer 1700000000000)
        (setText (str '' Buy milk '')
          \<lparr>todos = [], input_text = [], filter' = F_all, editingId = None, editingText = []\<rparr>))
     = [\<lparr>id' = str ''u1'', text' = str ''Buy milk'', completed = False,
          createdAt = Integer 1700000000000\<rparr>]
   \<and> trim (str ''   '') = []
   \<and> todos (addTodo (str ''u1'') (Integer 1700000000000)
        (setText (str ''   '')
          \<lparr>todos = [], input_text = [], filter' = F_all, editingId = None, editingText = []\<rparr>))
     = []"
proof -
  have t1: "trim (str '' Buy milk '') = str ''Buy milk''"
    by (simp add: trim_def str_def is_white_space_def)
  have t2: "trim (str ''   '') = []"
    by (simp add: trim_def str_def is_white_space_def)
  have n1: "trim (str '' Buy milk '') \<noteq> []"
    unfolding t1 by (simp add: str_def)
  show ?thesis
    using addTodo_spec [of "str '' Buy milk ''" "str ''u1''" "Integer 1700000000000"
        "\<lparr>todos = [], input_text = [], filter' = F_all, editingId = None, editingText = []\<rparr>"]
      addTodo_spec [of "str ''   ''" "str ''u1''" "Integer 1700000000000"
        "\<lparr>todos = [], input_text = [], filter' = F_all, editingId = None, editingText = []\<rparr>"]
      n1 t1 t2
    by (simp add: setText_def)
qed

text \<open>
  C4. \<open>toggleTodo i\<close> keeps the length and the order of the collection, negates
  \<open>completed\<close> on the task whose id is \<open>i\<close>, leaves every other task as it is, and
  applied twice gives the original state back.
\<close>

theorem toggleTodo_spec:
  "length (todos (toggleTodo i st)) = length (todos st)
   \<and> (\<forall>k < length (todos st).
        todos (toggleTodo i st) ! k =
          (if id' (todos st ! k) = i
           then (todos st ! k)\<lparr>completed := \<not> completed (todos st ! k)\<rparr>
           else todos st ! k))
   \<and> toggleTodo i (toggleTodo i st) = st"
proof -
  have "map ((\<lambda>t. if id' t = i then t\<lparr>completed := \<not> completed t\<rparr> else t)
          \<circ> (\<lambda>t. if id' t = i then t\<lparr>completed := \<not> completed t\<rparr> else t)) (todos st)
        = todos st"
    by (rule map_idI) simp
  then show ?thesis
    by (simp add: toggleTodo_def)
qed

theorem toggleTodo_spec_witness:
  "todos (toggleTodo (str ''a'')
     \<lparr>todos = [\<lparr>id' = str ''b'', text' = str ''Walk dog'', completed = False, createdAt = Integer 2\<rparr>,
               \<lparr>id' = str ''a'', text' = str ''Buy milk'', completed = False, createdAt = Integer 1\<rparr>],
      input_text = [], filter' = F_all, editingId = None, editingText = []\<rparr>)
   = [\<lparr>id' = str ''b'', text' = str ''Walk dog'', completed = False, createdAt = Integer 2\<rparr>,
      \<lparr>id' = str ''a'', text' = str ''Buy milk'', completed = True, createdAt = Integer 1\<rparr>]"
proof -
  let ?st = "\<lparr>todos = [\<lparr>id' = str ''b'', text' = str ''Walk dog'', completed = False, createdAt = Integer 2\<rparr>,
               \<lparr>id' = str ''a'', text' = str ''Buy milk'', completed = False, createdAt = Integer 1\<rparr>],
      input_text = [], filter' = F_all, editingId = None, editingText = []\<rparr>"
  from toggleTodo_spec [of "str ''a''" ?st]
  have len: "length (todos (toggleTodo (str ''a'') ?st)) = 2"
    and nth: "\<forall>k<2. todos (toggleTodo (str ''a'') ?st) ! k =
          (if id' (todos ?st ! k) = str ''a''
           then (todos ?st ! k)\<lparr>completed := \<not> completed (todos ?st ! k)\<rparr>
           else todos ?st ! k)"
    by simp_all
  from nth have "todos (toggleTodo (str ''a'') ?st) ! 0 = todos ?st ! 0"
    and "todos (toggleTodo (str ''a'') ?st) ! 1 = (todos ?st ! 1)\<lparr>completed := True\<rparr>"
    by (simp_all add: str_def)
  with len show ?thesis
    by (simp add: list_eq_iff_nth_eq less_Suc_eq numeral_2_eq_2)
qed

text \<open>
  C5. When no task of the collection has the id \<open>i\<close>, each of \<open>toggleTodo i\<close>,
  \<open>removeTodo i\<close> and \<open>saveEdit i\<close> leaves the collection as it is.
\<close>

theorem absent_id_unchanged:
  assumes "i \<notin> id' ` set (todos st)"
  shows "todos (toggleTodo i st) = todos st
       \<and> todos (removeTodo i st) = todos st
       \<and> todos (saveEdit i st) = todos st"
proof -
  from assms have ne: "\<And>t. t \<in> set (todos st) \<Longrightarrow> id' t \<noteq> i"
    by auto
  have "map (\<lambda>t. if id' t = i then t\<lparr>completed := \<not> completed t\<rparr> else t) (todos st) = todos st"
    by (rule map_idI) (simp add: ne)
  moreover have "filter (\<lambda>t. id' t \<noteq> i) (todos st) = todos st"
    by (simp add: ne)
  moreover have "map (\<lambda>t. if id' t = i then t\<lparr>text' := x\<rparr> else t) (todos st) = todos st" for x
    by (rule map_idI) (simp add: ne)
  ultimately show ?thesis
    by (simp add: toggleTodo_def removeTodo_def saveEdit_def cancelEdit_def Let_def)
qed

theorem absent_id_unchanged_witness:
  "str ''z'' \<notin> id' ` set [\<lparr>id' = str ''a'', text' = str ''Buy milk'', completed = False, createdAt = Integer 1\<rparr>]
   \<and> todos (saveEdit (str ''z'')
        \<lparr>todos = [\<lparr>id' = str ''a'', text' = str ''Buy milk'', completed = False, createdAt = Integer 1\<rparr>],
         input_text = [], filter' = F_all, editingId = Some (str ''z''), editingText = str ''x''\<rparr>)
     = [\<lparr>id' = str ''a'', text' = str ''Buy milk'', completed = False, createdAt = Integer 1\<rparr>]
   \<and> todos (removeTodo (str ''z'')
        \<lparr>todos = [\<lparr>id' = str ''a'', text' = str ''Buy milk'', completed = False, createdAt = Integer 1\<rparr>],
         input_text = [], filter' = F_all, editingId = Some (str ''z''), editingText = str ''x''\<rparr>)
     = [\<lparr>id' = str ''a'', text' = str ''Buy milk'', completed = False, createdAt = Integer 1\<rparr>]
   \<and> todos (toggleTodo (str ''z'')
        \<lparr>todos = [\<lparr>id' = str ''a'', text' = str ''Buy milk'', completed = False, createdAt = Integer 1\<rparr>],
         input_text = [], filter' = F_all, editingId = Some (str ''z''), editingText = str ''x''\<rparr>)
     = [\<lparr>id' = str ''a'', text' = str ''Buy milk'', completed = False, createdAt = Integer 1\<rparr>]"
proof -
  have h: "str ''z'' \<notin> id' ` set [\<lparr>id' = str ''a'', text' = str ''Buy milk'', completed = False, createdAt = Integer 1\<rparr>]"
    by (simp add: str_def)
  show ?thesis
    using h absent_id_unchanged [of "str ''z''"
        "\<lparr>todos = [\<lparr>id' = str ''a'', text' = str ''Buy milk'', completed = False, createdAt = Integer 1\<rparr>],
         input_text = [], filter' = F_all, editingId = Some (str ''z''), editingText = str ''x''\<rparr>"]
    by simp
qed

text \<open>
  C6. When the trimmed edit buffer is empty, \<open>saveEdit i\<close> gives the same collection as
  \<open>removeTodo i\<close>, in which no task has the id \<open>i\<close>, and clears the edit state.
\<close>

theorem saveEdit_empty:
  assumes "trim (editingText st) = []"
  shows "todos (saveEdit i st) = todos (removeTodo i st)
       \<and> i \<notin> id' ` set (todos (saveEdit i st))
       \<and> editingId (saveEdit i st) = None
       \<and> editingText (saveEdit i st) = []"
  using assms by (auto simp add: saveEdit_def removeTodo_def cancelEdit_def)

theorem saveEdit_empty_witness:
  "trim (str ''  '') = []
   \<and> str ''a'' \<in> id' ` set [\<lparr>id' = str ''b'', text' = str ''Walk dog'', completed = False, createdAt = Integer 2\<rparr>,
               \<lparr>id' = str ''a'', text' = str ''Buy milk'', completed = False, createdAt = Integer 1\<rparr>]
   \<and> todos (saveEdit (str ''a'')
       \<lparr>todos = [\<lparr>id' = str ''b'', text' = str ''Walk dog'', completed = False, createdAt = Integer 2\<rparr>,
               \<lparr>id' = str ''a'', text' = str ''Buy milk'', completed = False, createdAt = Integer 1\<rparr>],
        input_text = [], filter' = F_all, editingId = Some (str ''a''), editingText = str ''  ''\<rparr>)
     = [\<lparr>id' = str ''b'', text' = str ''Walk dog'', completed = False, createdAt = Integer 2\<rparr>]"
proof -
  have h: "trim (str ''  '') = []"
    by (simp add: trim_def str_def is_white_space_def)
  have r: "todos (removeTodo (str ''a'')
       \<lparr>todos = [\<lparr>id' = str ''b'', text' = str ''Walk dog'', completed = False, createdAt = Integer 2\<rparr>,
               \<lparr>id' = str ''a'', text' = str ''Buy milk'', completed = False, createdAt = Integer 1\<rparr>],
        input_text = [], filter' = F_all, editingId = Some (str ''a''), editingText = str ''  ''\<rparr>)
     = [\<lparr>id' = str ''b'', text' = str ''Walk dog'', completed = False, createdAt = Integer 2\<rparr>]"
    by (simp add: removeTodo_def str_def)
  show ?thesis
    using h r saveEdit_empty [of
       "\<lparr>todos = [\<lparr>id' = str ''b'', text' = str ''Walk dog'', completed = False, createdAt = Integer 2\<rparr>,
               \<lparr>id' = str ''a'', text' = str ''Buy milk'', completed = False, createdAt = Integer 1\<rparr>],
        input_text = [], filter' = F_all, editingId = Some (str ''a''), editingText = str ''  ''\<rparr>"
       "str ''a''"]
    by simp
qed

text \<open>
  C7. When the trimmed edit buffer is not empty, \<open>saveEdit i\<close> keeps the length and the
  order of the collection; the task whose id is \<open>i\<close> gets the trimmed buffer as its text
  and keeps its \<open>id\<close>, \<open>completed\<close> and \<open>createdAt\<close>; every other task stays as it is.
\<close>

theorem saveEdit_nonempty:
  assumes "trim (editingText st) \<noteq> []"
  shows "length (todos (saveEdit i st)) = length (todos st)
       \<and> (\<forall>k < length (todos st).
            (id' (todos st ! k) = i \<longrightarrow>
               todos (saveEdit i st) ! k = (todos st ! k)\<lparr>text' := trim (editingText st)\<rparr>
               \<and> text' (todos (saveEdit i st) ! k) = trim (editingText st)
               \<and> id' (todos (saveEdit i st) ! k) = id' (todos st ! k)
               \<and> completed (todos (saveEdit i st) ! k) = completed (todos st ! k)
               \<and> createdAt (todos (saveEdit i st) ! k) = createdAt (todos st ! k))
          \<and> (id' (todos st ! k) \<noteq> i \<longrightarrow> todos (saveEdit i st) ! k = todos st ! k))"
  using assms by (simp add: saveEdit_def cancelEdit_def)

theorem saveEdit_nonempty_witness:
  "trim (str '' Buy oat milk'') \<noteq> []
   \<and> todos (saveEdit (str ''a'')
       \<lparr>todos = [\<lparr>id' = str ''b'', text' = str ''Walk dog'', completed = False, createdAt = Integer 2\<rparr>,
               \<lparr>id' = str ''a'', text' = str ''Buy milk'', completed = True, createdAt = Integer 1\<rparr>],
        input_text = [], filter' = F_all, editingId = Some (str ''a''),
        editingText = str '' Buy oat milk''\<rparr>) ! 1
     = \<lparr>id' = str ''a'', text' = str ''Buy oat milk'', completed = True, createdAt = Integer 1\<rparr>
   \<and> todos (saveEdit (str ''a'')
       \<lparr>todos = [\<lparr>id' = str ''b'', text' = str ''Walk dog'', completed = False, createdAt = Integer 2\<rparr>,
               \<lparr>id' = str ''a'', text' = str ''Buy milk'', completed = True, createdAt = Integer 1\<rparr>],
        input_text = [], filter' = F_all, editingId = Some (str ''a''),
        editingText = str '' Buy oat milk''\<rparr>) ! 0
     = \<lparr>id' = str ''b'', text' = str ''Walk dog'', completed = False, createdAt = Integer 2\<rparr>"
proof -
  let ?st = "\<lparr>todos = [\<lparr>id' = str ''b'', text' = str ''Walk dog'', completed = False, createdAt = Integer 2\<rparr>,
               \<lparr>id' = str ''a'', text' = str ''Buy milk'', completed = True, createdAt = Integer 1\<rparr>],
        input_text = [], filter' = F_all, editingId = Some (str ''a''),
        editingText = str '' Buy oat milk''\<rparr>"
  have t: "trim (str '' Buy oat milk'') = str ''Buy oat milk''"
    by (simp add: trim_def str_def is_white_space_def)
  have ne: "str ''Buy oat milk'' \<noteq> []"
    by (simp add: str_def)
  have ab: "str ''b'' \<noteq> str ''a''"
    by (simp add: str_def)
  have h: "trim (editingText ?st) \<noteq> []"
    by (simp add: t ne)
  from saveEdit_nonempty [OF h, of "str ''a''"]
  have nth: "\<forall>k<2. (id' (todos ?st ! k) = str ''a'' \<longrightarrow>
               todos (saveEdit (str ''a'') ?st) ! k = (todos ?st ! k)\<lparr>text' := trim (editingText ?st)\<rparr>)
          \<and> (id' (todos ?st ! k) \<noteq> str ''a'' \<longrightarrow> todos (saveEdit (str ''a'') ?st) ! k = todos ?st ! k)"
    by simp
  have "(0::nat) < 2" and "(1::nat) < 2"
    by simp_all
  with nth have "todos (saveEdit (str ''a'') ?st) ! 0 = todos ?st ! 0"
    and "todos (saveEdit (str ''a'') ?st) ! 1 = (todos ?st ! 1)\<lparr>text' := str ''Buy oat milk''\<rparr>"
    by (simp_all add: t ab)
  then show ?thesis
    by (simp add: t ne)
qed

text \<open>
  C8. \<open>clearCompleted\<close> keeps exactly the tasks with \<open>completed = false\<close>, each as often
  as it occurred, in their former relative order, and a second application changes
  nothing more.
\<close>

theorem clearCompleted_spec:
  "mset (todos (clearCompleted st)) = filter_mset (\<lambda>t. \<not> completed t) (mset (todos st))
   \<and> set (todos (clearCompleted st)) = set (todos st) - {t. completed t}
   \<and> subseq (todos (clearCompleted st)) (todos st)
   \<and> clearCompleted (clearCompleted st) = clearCompleted st"
  by (auto simp add: clearCompleted_def)

text \<open>
  C9. Choosing a filter mode leaves the collection as it is; under \<open>all\<close> the view is the
  collection itself; the views under \<open>active\<close> and \<open>completed\<close> together hold every task
  of the collection exactly as often as the collection does, and no task is in both.
\<close>

theorem visible_partition:
  "todos (setFilter f st) = todos st
   \<and> visible (setFilter F_all st) = todos st
   \<and> mset (visible (setFilter F_active st)) + mset (visible (setFilter F_completed st))
       = mset (visible (setFilter F_all st))
   \<and> set (visible (setFilter F_active st)) \<union> set (visible (setFilter F_completed st))
       = set (visible (setFilter F_all st))
   \<and> set (visible (setFilter F_active st)) \<inter> set (visible (setFilter F_completed st)) = {}"
proof -
  have "mset (filter (\<lambda>t. \<not> completed t) (todos st)) + mset (filter completed (todos st))
        = mset (todos st)"
    by (induction "todos st" arbitrary: st) (simp_all add: multiset_eq_iff)
  then show ?thesis
    by (auto simp add: visible_def setFilter_def)
qed

text \<open>
  C10. Under each filter mode the view is a subsequence of the collection: it is obtained
  from the collection by leaving tasks out, so each of its tasks is in the collection and
  the tasks it keeps are in the order they have there.
\<close>

theorem visible_subseq:
  "subseq (visible st) (todos st) \<and> set (visible st) \<subseteq> set (todos st)"
  by (simp add: visible_def)

end
